theory Spec2Isabelle
  imports Complex_Main
begin

section \<open>Utils.debounce\<close>

text \<open>
  The host's timers and the closure of one wrapper returned by \<^verbatim>\<open>Utils.debounce(func, wait)\<close>.
  Time is counted in milliseconds. \<open>active\<close> is the host's table of timers that are set and
  have neither run nor been cleared: handle, due time and callback. \<open>timeout\<close> is the
  closure variable \<^verbatim>\<open>let timeout\<close>, \<open>None\<close> while it is \<^verbatim>\<open>undefined\<close>. \<open>observed\<close>
  records, newest first, every call of the wrapper and every call of \<^verbatim>\<open>func\<close>.
\<close>

datatype 'a task = Later 'a | Foreign

datatype 'a obs = Called nat 'a | Ran nat 'a

record 'a page =
  clock :: nat
  next_handle :: nat
  active :: "(nat \<times> nat \<times> 'a task) list"
  timeout :: "nat option"
  observed :: "'a obs list"

definition clearTimeout :: "nat option \<Rightarrow> 'a page \<Rightarrow> 'a page" where
  \<comment> \<open>clearing \<^verbatim>\<open>undefined\<close> or a handle that is not active does nothing\<close>
  "clearTimeout h s =
     (case h of None \<Rightarrow> s
      | Some i \<Rightarrow> s\<lparr>active := filter (\<lambda>e. fst e \<noteq> i) (active s)\<rparr>)"

definition setTimeout :: "'a task \<Rightarrow> nat \<Rightarrow> 'a page \<Rightarrow> nat \<times> 'a page" where
  "setTimeout cb wait s =
     (next_handle s,
      s\<lparr>active := active s @ [(next_handle s, clock s + wait, cb)],
        next_handle := Suc (next_handle s)\<rparr>)"

definition later :: "'a \<Rightarrow> 'a page \<Rightarrow> 'a page" where
  \<comment> \<open>\<^verbatim>\<open>const later = () => { clearTimeout(timeout); func(...args); }\<close>\<close>
  "later args s =
     (let s1 = clearTimeout (timeout s) s
      in s1\<lparr>observed := Ran (clock s1) args # observed s1\<rparr>)"

definition executedFunction :: "nat \<Rightarrow> 'a \<Rightarrow> 'a page \<Rightarrow> 'a page" where
  \<comment> \<open>the wrapper: \<^verbatim>\<open>clearTimeout(timeout); timeout = setTimeout(later, wait);\<close>\<close>
  "executedFunction wait args s =
     (let s0 = s\<lparr>observed := Called (clock s) args # observed s\<rparr>;
          s1 = clearTimeout (timeout s0) s0;
          (h, s2) = setTimeout (Later args) wait s1
      in s2\<lparr>timeout := Some h\<rparr>)"

text \<open>
  What the event loop can do between two states: the wrapper is called, time passes, a
  timer that is due runs (the host removes it from the table and calls its callback), or
  some other code sets a timer of its own. A \<open>Fire\<close> of a handle that is not active or
  not yet due does nothing: the host never runs such a timer.
\<close>

datatype 'a event = Invoke 'a | Elapse nat | Fire nat | SetForeign nat

definition fire :: "nat \<Rightarrow> 'a page \<Rightarrow> 'a page" where
  "fire i s =
     (case find (\<lambda>e. fst e = i) (active s) of
        None \<Rightarrow> s
      | Some (_, due, cb) \<Rightarrow>
          if clock s < due then s
          else (let s1 = s\<lparr>active := filter (\<lambda>e. fst e \<noteq> i) (active s)\<rparr>
                in case cb of Later args \<Rightarrow> later args s1 | Foreign \<Rightarrow> s1))"

fun step :: "nat \<Rightarrow> 'a event \<Rightarrow> 'a page \<Rightarrow> 'a page" where
  "step wait (Invoke args) s = executedFunction wait args s"
| "step wait (Elapse n) s = s\<lparr>clock := clock s + n\<rparr>"
| "step wait (Fire i) s = fire i s"
| "step wait (SetForeign n) s = snd (setTimeout Foreign n s)"

definition debounce :: "'a page" where
  \<comment> \<open>the state right after \<^verbatim>\<open>Utils.debounce(func, wait)\<close> returned: \<^verbatim>\<open>timeout\<close> undefined\<close>
  "debounce = \<lparr>clock = 0, next_handle = 1, active = [], timeout = None, observed = []\<rparr>"

definition run :: "nat \<Rightarrow> 'a event list \<Rightarrow> 'a page" where
  "run wait evs = fold (step wait) evs debounce"

definition pending :: "'a page \<Rightarrow> (nat \<times> nat \<times> 'a task) list" where
  \<comment> \<open>the active timers that this wrapper armed\<close>
  "pending s = filter (\<lambda>e. snd (snd e) \<noteq> Foreign) (active s)"

definition history :: "'a page \<Rightarrow> 'a obs list" where
  \<comment> \<open>the observations in the order they happened\<close>
  "history s = rev (observed s)"

text \<open>
  \<open>well_timed w\<close> reads the observations newest first: every run of \<^verbatim>\<open>func\<close> comes
  right after a call of the wrapper with the same arguments, at least \<open>w\<close> ms earlier.
  \<open>debounce_inv\<close> is the invariant of the reachable states.
\<close>

fun well_timed :: "nat \<Rightarrow> 'a obs list \<Rightarrow> bool" where
  "well_timed w [] = True"
| "well_timed w (Called t a # rest) = well_timed w rest"
| "well_timed w (Ran t a # Called t0 a0 # rest) = (a0 = a \<and> t0 + w \<le> t \<and> well_timed w rest)"
| "well_timed w (Ran t a # rest) = False"

definition debounce_inv :: "nat \<Rightarrow> 'a page \<Rightarrow> bool" where
  "debounce_inv wait s \<longleftrightarrow>
     distinct (map fst (active s))
   \<and> (\<forall>e \<in> set (active s). fst e < next_handle s)
   \<and> (\<forall>e \<in> set (active s). \<forall>a. snd (snd e) = Later a \<longrightarrow>
         timeout s = Some (fst e)
       \<and> (\<exists>t0 rest. observed s = Called t0 a # rest \<and> fst (snd e) = t0 + wait))
   \<and> well_timed wait (observed s)"


section \<open>Scroll-to-top easing\<close>

text \<open>
  \<^verbatim>\<open>easeInOutCubic(t, b, c, d)\<close> of the scroll-to-top click handler, over exact rational
  arithmetic. The first statement divides by \<open>d / 2\<close>; a quotient by zero has no rational
  value, so the model returns \<open>None\<close> there.
\<close>

definition easeInOutCubic :: "rat \<Rightarrow> rat \<Rightarrow> rat \<Rightarrow> rat \<Rightarrow> rat option" where
  "easeInOutCubic t b c d =
     (if d / 2 = 0 then None
      else (let t1 = t / (d / 2) in
            if t1 < 1 then Some (c / 2 * t1 * t1 * t1 + b)
            else (let t2 = t1 - 2 in Some (c / 2 * (t2 * t2 * t2 + 2) + b))))"

section \<open>Strings and Utils.getCurrentPageName\<close>

text \<open>
  A string of the program is a sequence of UTF-16 code units, each a natural number.
  \<open>lit\<close> turns an ASCII literal of the source into its code units.
\<close>

type_synonym ustring = "nat list"

definition lit :: "string \<Rightarrow> ustring" where
  "lit s = map of_char s"

datatype error = TypeError | URIError

text \<open>
  \<^verbatim>\<open>String.prototype.split\<close> with a one-unit separator, \<^verbatim>\<open>Array.prototype.pop\<close>
  (\<open>None\<close> is \<^verbatim>\<open>undefined\<close>, the result on an empty array),
  \<^verbatim>\<open>String.prototype.replace\<close> with a string pattern (only the first occurrence is
  replaced) and \<^verbatim>\<open>String.prototype.includes\<close>.
\<close>

fun string_split :: "'a \<Rightarrow> 'a list \<Rightarrow> 'a list list" where
  "string_split sep [] = [[]]"
| "string_split sep (c # cs) =
     (if c = sep then [] # string_split sep cs
      else (case string_split sep cs of
              [] \<Rightarrow> [[c]]
            | piece # pieces \<Rightarrow> (c # piece) # pieces))"

definition array_pop :: "'a list \<Rightarrow> 'a option" where
  "array_pop xs = (if xs = [] then None else Some (last xs))"

fun string_replace :: "'a list \<Rightarrow> 'a list \<Rightarrow> 'a list \<Rightarrow> 'a list" where
  "string_replace pat rep [] = (if pat = [] then rep else [])"
| "string_replace pat rep (c # cs) =
     (if take (length pat) (c # cs) = pat then rep @ drop (length pat) (c # cs)
      else c # string_replace pat rep cs)"

fun string_includes :: "'a list \<Rightarrow> 'a list \<Rightarrow> bool" where
  "string_includes pat [] = (pat = [])"
| "string_includes pat (c # cs) =
     (take (length pat) (c # cs) = pat \<or> string_includes pat cs)"

text \<open>
  \<^verbatim>\<open>decodeURIComponent\<close> is the host's function; the model follows the abstract operation
  Decode of ECMA-262 with an empty set of preserved escapes. The unit 37 is the percent sign.
  An escape whose octet has its top bit set starts a UTF-8 sequence of two to four octets,
  every one of them written as an escape; the sequence must be the well-formed encoding of
  a code point, which is then written as one or two UTF-16 code units. Everything that is
  not well-formed throws \<^verbatim>\<open>URIError\<close>.
\<close>

definition hex_digit :: "nat \<Rightarrow> nat option" where
  "hex_digit c =
     (if 48 \<le> c \<and> c \<le> 57 then Some (c - 48)
      else if 65 \<le> c \<and> c \<le> 70 then Some (c - 55)
      else if 97 \<le> c \<and> c \<le> 102 then Some (c - 87)
      else None)"

definition ParseHexOctet :: "nat \<Rightarrow> nat \<Rightarrow> nat option" where
  "ParseHexOctet h1 h2 =
     (case hex_digit h1 of None \<Rightarrow> None
      | Some a \<Rightarrow> (case hex_digit h2 of None \<Rightarrow> None | Some b \<Rightarrow> Some (16 * a + b)))"

definition leading_ones :: "nat \<Rightarrow> nat" where
  \<comment> \<open>the number of leading 1 bits of an octet; 5 stands for "more than four"\<close>
  "leading_ones b =
     (if b < 128 then 0 else if b < 192 then 1 else if b < 224 then 2
      else if b < 240 then 3 else if b < 248 then 4 else 5)"

fun continuation :: "nat \<Rightarrow> ustring \<Rightarrow> (nat list \<times> ustring) option" where
  \<comment> \<open>reads \<open>j\<close> further escapes; returns their octets and the rest of the input\<close>
  "continuation 0 cs = Some ([], cs)"
| "continuation (Suc j) (p # h1 # h2 # cs) =
     (if p \<noteq> 37 then None
      else (case ParseHexOctet h1 h2 of
              None \<Rightarrow> None
            | Some b \<Rightarrow> (case continuation j cs of
                          None \<Rightarrow> None
                        | Some (bs, rest) \<Rightarrow> Some (b # bs, rest))))"
| "continuation (Suc j) cs = None"

definition utf8_code_point :: "nat \<Rightarrow> nat \<Rightarrow> nat list \<Rightarrow> nat option" where
  \<comment> \<open>the code point of a lead octet \<open>b\<close> with \<open>n\<close> leading ones and its continuation
      octets, if they are its shortest encoding and it is no surrogate\<close>
  "utf8_code_point n b octs =
     (let v = foldl (\<lambda>acc o8. acc * 64 + o8 mod 64) (b mod 2 ^ (7 - n)) octs;
          least = (if n = 2 then 128 else if n = 3 then 2048 else 65536)
      in if (\<forall>o8 \<in> set octs. 128 \<le> o8 \<and> o8 < 192)
            \<and> least \<le> v \<and> v \<le> 1114111 \<and> \<not> (55296 \<le> v \<and> v \<le> 57343)
         then Some v else None)"

definition UTF16EncodeCodePoint :: "nat \<Rightarrow> ustring" where
  "UTF16EncodeCodePoint v =
     (if v \<le> 65535 then [v]
      else [(v - 65536) div 1024 + 55296, (v - 65536) mod 1024 + 56320])"

function Decode :: "ustring \<Rightarrow> error + ustring" where
  "Decode [] = Inr []"
| "Decode (c # cs) =
     (if c \<noteq> 37 then (case Decode cs of Inl e \<Rightarrow> Inl e | Inr r \<Rightarrow> Inr (c # r))
      else (case cs of
              h1 # h2 # rest \<Rightarrow>
                (case ParseHexOctet h1 h2 of
                   None \<Rightarrow> Inl URIError
                 | Some b \<Rightarrow>
                     (let n = leading_ones b in
                      if n = 0 then (case Decode rest of Inl e \<Rightarrow> Inl e | Inr r \<Rightarrow> Inr (b # r))
                      else if n = 1 \<or> 4 < n then Inl URIError
                      else (case continuation (n - 1) rest of
                              None \<Rightarrow> Inl URIError
                            | Some (octs, rest') \<Rightarrow>
                                (case utf8_code_point n b octs of
                                   None \<Rightarrow> Inl URIError
                                 | Some v \<Rightarrow>
                                     (case Decode rest' of
                                        Inl e \<Rightarrow> Inl e
                                      | Inr r \<Rightarrow> Inr (UTF16EncodeCodePoint v @ r))))))
            | _ \<Rightarrow> Inl URIError))"
  by pat_completeness auto
termination
proof -
  have shorter: "length rest \<le> length cs"
    if "continuation j cs = Some (bs, rest)" for j cs bs and rest :: ustring
    using that
  proof (induction j cs arbitrary: bs rule: continuation.induct)
    case (2 j p h1 h2 cs)
    from 2(2) obtain b bs' where a: "\<not> p \<noteq> 37" "ParseHexOctet h1 h2 = Some b"
      "continuation j cs = Some (bs', rest)"
      by (auto split: if_splits option.splits)
    from 2(1) [OF a] show ?case by simp
  qed simp_all
  show ?thesis
    by (relation "measure length") (auto dest: shorter)
qed

definition decodeURIComponent :: "ustring \<Rightarrow> error + ustring" where
  "decodeURIComponent s = Decode s"

text \<open>
  \<^verbatim>\<open>Utils.getCurrentPageName\<close>, as a function of \<^verbatim>\<open>window.location.pathname\<close>. The empty
  string is the only falsy string, so \<^verbatim>\<open>x || 'homepage'\<close> replaces exactly the empty one.
  Calling \<^verbatim>\<open>replace\<close> on \<^verbatim>\<open>undefined\<close> would throw \<^verbatim>\<open>TypeError\<close>.
\<close>

definition getCurrentPageName :: "ustring \<Rightarrow> error + ustring" where
  "getCurrentPageName path =
     (case array_pop (string_split 47 path) of
        None \<Rightarrow> Inl TypeError
      | Some filename \<Rightarrow>
          (let replaced = string_replace (lit ''.html'') [] filename;
               pageName = (if replaced = [] then lit ''homepage'' else replaced)
           in decodeURIComponent pageName))"

text \<open>
  \<^verbatim>\<open>NavigationEnhancement.getCurrentPageId\<close> is the same without the decoding.
\<close>

definition getCurrentPageId :: "ustring \<Rightarrow> error + ustring" where
  "getCurrentPageId path =
     (case array_pop (string_split 47 path) of
        None \<Rightarrow> Inl TypeError
      | Some filename \<Rightarrow>
          (let replaced = string_replace (lit ''.html'') [] filename
           in Inr (if replaced = [] then lit ''homepage'' else replaced)))"

text \<open>
  The specification speaks of the last path segment and of the first occurrence of a
  substring; these are the two notions in its words, to compare the code with.
  \<open>occurs_at pat s i\<close>: \<open>pat\<close> occurs in \<open>s\<close> at position \<open>i\<close>.
\<close>

definition last_segment :: "ustring \<Rightarrow> ustring" where
  \<comment> \<open>what follows the last slash; the whole string when it has none\<close>
  "last_segment path = rev (takeWhile (\<lambda>c. c \<noteq> 47) (rev path))"

definition occurs_at :: "'a list \<Rightarrow> 'a list \<Rightarrow> nat \<Rightarrow> bool" where
  "occurs_at pat s i \<longleftrightarrow> i + length pat \<le> length s \<and> take (length pat) (drop i s) = pat"

definition remove_first_occurrence :: "'a list \<Rightarrow> 'a list \<Rightarrow> 'a list" where
  \<comment> \<open>\<open>s\<close> without the first occurrence of \<open>pat\<close>; \<open>s\<close> itself when there is none\<close>
  "remove_first_occurrence pat s =
     (case find (occurs_at pat s) [0..<Suc (length s)] of
        None \<Rightarrow> s
      | Some i \<Rightarrow> take i s @ drop (i + length pat) s)"

section \<open>The DOMContentLoaded handler\<close>

text \<open>
  \<^verbatim>\<open>Utils.shouldDisableCardAnimations\<close> reads \<^verbatim>\<open>window.location.pathname\<close>,
  \<^verbatim>\<open>window.location.href\<close> and \<^verbatim>\<open>document.title\<close>. Its \<^verbatim>\<open>console.log\<close> lines are
  left out: they change nothing the program reads.
\<close>

record browser_env =
  pathname :: ustring
  href :: ustring
  title :: ustring

definition pagesWithDisabledAnimations :: "ustring list" where
  "pagesWithDisabledAnimations = [lit ''Center Pivot Irrigation Detail'']"

definition shouldDisableCardAnimations :: "browser_env \<Rightarrow> error + bool" where
  "shouldDisableCardAnimations env =
     (case getCurrentPageName (pathname env) of
        Inl e \<Rightarrow> Inl e
      | Inr currentPage \<Rightarrow>
          Inr (currentPage \<in> set pagesWithDisabledAnimations
               \<or> string_includes (lit ''Center%20Pivot%20Irrigation%20Detail'') (href env)
               \<or> string_includes (lit ''Center Pivot Irrigation Detail'') (href env)
               \<or> string_includes (lit ''Center Pivot Irrigation Detail'') (title env)))"

text \<open>
  The nine modules, and the nine lines \<^verbatim>\<open>if (typeof M !== 'undefined') M.init();\<close> in the
  order of the source. Every \<open>M\<close> is a \<^verbatim>\<open>const\<close> of the enclosing function, so each
  \<^verbatim>\<open>typeof\<close> test holds. What an \<^verbatim>\<open>init\<close> does to the page is a parameter here: a
  function on the state of the page that returns the new state or throws. So is the block
  that switches the animations off. The handler returns the modules whose \<^verbatim>\<open>init\<close> it
  called, in the order of the calls, and how it ended.
\<close>

datatype module =
    NavigationEnhancement | FormEnhancement | CardEnhancement | TabEnhancement
  | ButtonEnhancement | ScrollEnhancement | ImageEnhancement | PerformanceEnhancement
  | AccessibilityEnhancement

definition init_order :: "module list" where
  "init_order =
     [NavigationEnhancement, FormEnhancement, CardEnhancement, TabEnhancement,
      ButtonEnhancement, ScrollEnhancement, ImageEnhancement, PerformanceEnhancement,
      AccessibilityEnhancement]"

fun init_each ::
  "(module \<Rightarrow> 'w \<Rightarrow> error + 'w) \<Rightarrow> module list \<Rightarrow> 'w \<Rightarrow> module list \<times> (error + 'w)" where
  "init_each init [] w = ([], Inr w)"
| "init_each init (m # ms) w =
     (case init m w of
        Inl e \<Rightarrow> ([m], Inl e)
      | Inr w' \<Rightarrow> (let (called, res) = init_each init ms w' in (m # called, res)))"

definition onDOMContentLoaded ::
  "browser_env \<Rightarrow> ('w \<Rightarrow> 'w) \<Rightarrow> (module \<Rightarrow> 'w \<Rightarrow> error + 'w) \<Rightarrow> 'w
     \<Rightarrow> module list \<times> (error + 'w)" where
  "onDOMContentLoaded env disableAnimations init w =
     (case shouldDisableCardAnimations env of
        Inl e \<Rightarrow> ([], Inl e)
      | Inr disabled \<Rightarrow>
          init_each init init_order (if disabled then disableAnimations w else w))"

section \<open>The document\<close>

text \<open>
  Elements are objects with an identity: a \<open>node\<close> is the address of one, \<open>elems\<close> maps
  it to the properties the program reads and writes, and \<open>tree\<close> is the tree of the
  elements that are connected to the document, children in document order. An element that
  has been created and not inserted has an entry in \<open>elems\<close> only.

  Of an element the model keeps the tag name, the \<^verbatim>\<open>id\<close> attribute, the class list (a
  \<^verbatim>\<open>DOMTokenList\<close>: an ordered set of tokens), the inline style, and for form fields the
  value, the type and whether the \<^verbatim>\<open>required\<close> attribute is present. \<open>methods\<close>
  lists the functions of \<^verbatim>\<open>FormEnhancement\<close> that are properties of the element
  object; an element made by the HTML parser or by \<^verbatim>\<open>document.createElement\<close> has none,
  and nothing in the file assigns one.
\<close>

type_synonym node = nat

datatype style_value = Text string | Px rat

record element =
  tagName :: string
  id_attr :: "string option"
  classList :: "string list"
  style :: "string \<rightharpoonup> style_value"
  field_value :: ustring
  field_type :: string
  required :: bool
  textContent :: string
  methods :: "string list"

datatype dtree = Node (root: node) (kids: "dtree list")

text \<open>
  The listeners that the functions modelled below register, each with the elements its
  closure holds. \<open>Debounced w f\<close> is the wrapper \<^verbatim>\<open>Utils.debounce(f, w)\<close>.
\<close>

datatype event_target = Element node | Document | Window

datatype listener =
    ToggleMobileMenu node
  | CloseMobileMenuOutside node node
  | HideMobileMenuWhenWide node
  | ValidateOnBlur
  | RevalidateOnInput
  | ValidateOnSubmit
  | Debounced nat listener

type_synonym registration = "event_target \<times> string \<times> listener"

text \<open>
  What a timer set by the functions modelled below does when it fires: the fade-in of
  \<^verbatim>\<open>switchTab\<close>, or the function that was given to \<^verbatim>\<open>Utils.debounce\<close>, called
  without a \<^verbatim>\<open>this\<close> and with the event of the last call of the wrapper (of which the
  model keeps the target).
\<close>

datatype timer_action = FadeIn node | CallWithoutThis listener node

record document =
  tree :: dtree
  elems :: "node \<Rightarrow> element"
  next_node :: node
  layout :: "node \<Rightarrow> rat \<times> rat"
  innerWidth :: nat
  timers :: "(nat \<times> timer_action) list"

text \<open>
  \<open>next_node\<close> is the address of the next element to be created. \<open>layout n\<close> is
  the left edge and the width of the box that \<^verbatim>\<open>getBoundingClientRect\<close> reports for
  \<open>n\<close>, \<open>innerWidth\<close> is \<^verbatim>\<open>window.innerWidth\<close>, and \<open>timers\<close> is the log of the
  calls of \<^verbatim>\<open>setTimeout\<close> made by the functions modelled below, with their delays.
\<close>

fun preorder :: "dtree \<Rightarrow> node list" where
  "preorder (Node n ts) = n # concat (map preorder ts)"

fun subtrees :: "dtree \<Rightarrow> dtree list" where
  "subtrees (Node n ts) = Node n ts # concat (map subtrees ts)"

definition subtree_at :: "dtree \<Rightarrow> node \<Rightarrow> dtree option" where
  "subtree_at t n = find (\<lambda>s. root s = n) (subtrees t)"

definition parentElement :: "document \<Rightarrow> node \<Rightarrow> node option" where
  \<comment> \<open>\<open>None\<close> is \<^verbatim>\<open>null\<close>: the root element and elements outside the tree\<close>
  "parentElement d n =
     map_option root (find (\<lambda>s. n \<in> set (map root (kids s))) (subtrees (tree d)))"

fun remove_node :: "node \<Rightarrow> dtree \<Rightarrow> dtree" where
  "remove_node x (Node n ts) = Node n (map (remove_node x) (filter (\<lambda>t. root t \<noteq> x) ts))"

fun append_child :: "node \<Rightarrow> node \<Rightarrow> dtree \<Rightarrow> dtree" where
  "append_child p c (Node n ts) =
     Node n (map (append_child p c) ts @ (if n = p then [Node c []] else []))"

text \<open>
  Selectors: a selector is a list of alternatives (separated by commas in the source), an
  alternative a list of simple selectors that must all hold of the element.
\<close>

datatype simple_selector = Tag string | Class string

type_synonym selector = "simple_selector list list"

fun holds :: "element \<Rightarrow> simple_selector \<Rightarrow> bool" where
  "holds e (Tag t) = (tagName e = t)"
| "holds e (Class c) = (c \<in> set (classList e))"

definition matches :: "selector \<Rightarrow> element \<Rightarrow> bool" where
  "matches sel e = (\<exists>alt \<in> set sel. \<forall>s \<in> set alt. holds e s)"

definition querySelectorAll :: "selector \<Rightarrow> document \<Rightarrow> node list" where
  "querySelectorAll sel d = filter (\<lambda>n. matches sel (elems d n)) (preorder (tree d))"

definition querySelector :: "selector \<Rightarrow> document \<Rightarrow> node option" where
  "querySelector sel d = find (\<lambda>n. matches sel (elems d n)) (preorder (tree d))"

definition getElementById :: "string \<Rightarrow> document \<Rightarrow> node option" where
  "getElementById i d = find (\<lambda>n. id_attr (elems d n) = Some i) (preorder (tree d))"

definition descendants :: "document \<Rightarrow> node \<Rightarrow> node list" where
  \<comment> \<open>the elements below \<open>n\<close>, in document order\<close>
  "descendants d n = (case subtree_at (tree d) n of None \<Rightarrow> [] | Some s \<Rightarrow> tl (preorder s))"

definition element_querySelector :: "node \<Rightarrow> selector \<Rightarrow> document \<Rightarrow> node option" where
  "element_querySelector n sel d = find (\<lambda>m. matches sel (elems d m)) (descendants d n)"

definition element_querySelectorAll :: "node \<Rightarrow> selector \<Rightarrow> document \<Rightarrow> node list" where
  "element_querySelectorAll n sel d = filter (\<lambda>m. matches sel (elems d m)) (descendants d n)"

text \<open>Writing a property of one element, and the operations of a class list.\<close>

definition update_element :: "node \<Rightarrow> (element \<Rightarrow> element) \<Rightarrow> document \<Rightarrow> document" where
  "update_element n f d = d\<lparr>elems := (elems d)(n := f (elems d n))\<rparr>"

definition token_add :: "string \<Rightarrow> string list \<Rightarrow> string list" where
  "token_add c cs = (if c \<in> set cs then cs else cs @ [c])"

definition token_remove :: "string \<Rightarrow> string list \<Rightarrow> string list" where
  "token_remove c cs = filter (\<lambda>x. x \<noteq> c) cs"

definition token_toggle :: "string \<Rightarrow> string list \<Rightarrow> string list" where
  "token_toggle c cs = (if c \<in> set cs then token_remove c cs else token_add c cs)"

definition classList_add :: "node \<Rightarrow> string \<Rightarrow> document \<Rightarrow> document" where
  "classList_add n c = update_element n (\<lambda>e. e\<lparr>classList := token_add c (classList e)\<rparr>)"

definition classList_remove :: "node \<Rightarrow> string \<Rightarrow> document \<Rightarrow> document" where
  "classList_remove n c = update_element n (\<lambda>e. e\<lparr>classList := token_remove c (classList e)\<rparr>)"

definition classList_toggle :: "node \<Rightarrow> string \<Rightarrow> document \<Rightarrow> document" where
  "classList_toggle n c = update_element n (\<lambda>e. e\<lparr>classList := token_toggle c (classList e)\<rparr>)"

definition classList_contains :: "document \<Rightarrow> node \<Rightarrow> string \<Rightarrow> bool" where
  "classList_contains d n c = (c \<in> set (classList (elems d n)))"

definition set_style :: "node \<Rightarrow> string \<Rightarrow> style_value \<Rightarrow> document \<Rightarrow> document" where
  "set_style n prop v = update_element n (\<lambda>e. e\<lparr>style := (style e)(prop \<mapsto> v)\<rparr>)"

definition setTimeout_dom :: "timer_action \<Rightarrow> nat \<Rightarrow> document \<Rightarrow> document" where
  "setTimeout_dom a delay d = d\<lparr>timers := timers d @ [(delay, a)]\<rparr>"

text \<open>
  The class names a selector mentions, and whether it consists of class names only: two
  documents with the same tree that agree on the membership of those names agree on the
  selector.
\<close>

definition class_names :: "selector \<Rightarrow> string set" where
  "class_names sel = {c. \<exists>alt \<in> set sel. Class c \<in> set alt}"

definition only_classes :: "selector \<Rightarrow> bool" where
  "only_classes sel \<longleftrightarrow> (\<forall>alt \<in> set sel. \<forall>s \<in> set alt. \<exists>c. s = Class c)"

text \<open>
  \<^verbatim>\<open>document.createElement\<close>, the setters of \<^verbatim>\<open>className\<close> and \<^verbatim>\<open>textContent\<close>,
  \<^verbatim>\<open>remove\<close> and \<^verbatim>\<open>appendChild\<close> of an element that is not in the tree yet.
  Assigning \<^verbatim>\<open>className\<close> makes the class list the ordered set of the tokens between
  ASCII whitespace.
\<close>

definition blank_element :: "string \<Rightarrow> element" where
  "blank_element tag =
     \<lparr>tagName = tag, id_attr = None, classList = [], style = Map.empty, field_value = [],
      field_type = [], required = False, textContent = [], methods = []\<rparr>"

definition createElement :: "string \<Rightarrow> document \<Rightarrow> node \<times> document" where
  "createElement tag d =
     (next_node d,
      d\<lparr>elems := (elems d)(next_node d := blank_element tag), next_node := Suc (next_node d)\<rparr>)"

definition ascii_whitespace :: "char \<Rightarrow> bool" where
  "ascii_whitespace c \<longleftrightarrow> of_char c \<in> {9, 10, 12, 13, 32 :: nat}"

definition class_tokens :: "string \<Rightarrow> string list" where
  "class_tokens s =
     rev (remdups (rev (filter (\<lambda>w. w \<noteq> [])
       (string_split CHR '' '' (map (\<lambda>c. if ascii_whitespace c then CHR '' '' else c) s)))))"

definition set_className :: "node \<Rightarrow> string \<Rightarrow> document \<Rightarrow> document" where
  "set_className n s = update_element n (\<lambda>e. e\<lparr>classList := class_tokens s\<rparr>)"

definition set_textContent :: "node \<Rightarrow> string \<Rightarrow> document \<Rightarrow> document" where
  "set_textContent n s = update_element n (\<lambda>e. e\<lparr>textContent := s\<rparr>)"

definition element_remove :: "node \<Rightarrow> document \<Rightarrow> document" where
  "element_remove x d = d\<lparr>tree := remove_node x (tree d)\<rparr>"

definition appendChild :: "node \<Rightarrow> node \<Rightarrow> document \<Rightarrow> document" where
  "appendChild parent child d = d\<lparr>tree := append_child parent child (tree d)\<rparr>"

section \<open>NavigationEnhancement.setupMobileMenu\<close>

definition toggleMobileMenu :: "node \<Rightarrow> document \<Rightarrow> document" where
  \<comment> \<open>the click listener of the button; \<^verbatim>\<open>e.stopPropagation()\<close> keeps the click from the
      listener on the document\<close>
  "toggleMobileMenu mobileMenu d =
     (let d1 = classList_toggle mobileMenu ''hidden'' d
      in if \<not> classList_contains d1 mobileMenu ''hidden''
         then set_style mobileMenu ''opacity'' (Text ''1'')
                (set_style mobileMenu ''transform'' (Text ''translateY(0)'') d1)
         else set_style mobileMenu ''opacity'' (Text ''0'')
                (set_style mobileMenu ''transform'' (Text ''translateY(-10px)'') d1))"

definition is_inclusive_descendant :: "document \<Rightarrow> node \<Rightarrow> node \<Rightarrow> bool" where
  \<comment> \<open>\<^verbatim>\<open>a.contains(b)\<close>\<close>
  "is_inclusive_descendant d a b = (b = a \<or> b \<in> set (descendants d a))"

definition closeMobileMenuOutside :: "node \<Rightarrow> node \<Rightarrow> node \<Rightarrow> document \<Rightarrow> document" where
  \<comment> \<open>the click listener of the document; \<open>target\<close> is \<^verbatim>\<open>e.target\<close>\<close>
  "closeMobileMenuOutside mobileMenu mobileMenuButton target d =
     (if \<not> is_inclusive_descendant d mobileMenu target
         \<and> \<not> is_inclusive_descendant d mobileMenuButton target
      then set_style mobileMenu ''opacity'' (Text ''0'')
             (set_style mobileMenu ''transform'' (Text ''translateY(-10px)'')
               (classList_add mobileMenu ''hidden'' d))
      else d)"

definition hideMobileMenuWhenWide :: "node \<Rightarrow> document \<Rightarrow> document" where
  \<comment> \<open>the function given to \<^verbatim>\<open>Utils.debounce\<close> for the resize listener; 1024 is
      \<^verbatim>\<open>CONFIG.mobileBreakpoint\<close>\<close>
  "hideMobileMenuWhenWide mobileMenu d =
     (if 1024 \<le> innerWidth d then classList_add mobileMenu ''hidden'' d else d)"

definition setupMobileMenu :: "document \<Rightarrow> registration list" where
  "setupMobileMenu d =
     (case (querySelector [[Class ''btn-ghost'', Class ''lg:hidden'']] d,
            getElementById ''mobileMenu'' d) of
        (Some mobileMenuButton, Some mobileMenu) \<Rightarrow>
          [(Element mobileMenuButton, ''click'', ToggleMobileMenu mobileMenu),
           (Document, ''click'', CloseMobileMenuOutside mobileMenu mobileMenuButton),
           (Window, ''resize'', Debounced 250 (HideMobileMenuWhenWide mobileMenu))]
      | _ \<Rightarrow> [])"

section \<open>TabEnhancement.switchTab\<close>

text \<open>
  A function that changes the document and may throw returns what it returned or threw
  together with the document as it left it: what was written before a throw stays written.
\<close>

type_synonym 'a result = "(error + 'a) \<times> document"

definition updateTabIndicator :: "node option \<Rightarrow> document \<Rightarrow> unit result" where
  \<comment> \<open>reading \<^verbatim>\<open>getBoundingClientRect\<close> of \<^verbatim>\<open>null\<close>, the parent of a tab that has none,
      throws \<^verbatim>\<open>TypeError\<close>\<close>
  "updateTabIndicator activeTab d =
     (case (querySelector [[Class ''tab-indicator'']] d, activeTab) of
        (Some indicator, Some tab) \<Rightarrow>
          (let tabRect = layout d tab in
           case parentElement d tab of
             None \<Rightarrow> (Inl TypeError, d)
           | Some container \<Rightarrow>
               (let containerRect = layout d container;
                    leftPosition = fst tabRect - fst containerRect;
                    width = snd tabRect
                in (Inr (),
                    set_style indicator ''width'' (Px width)
                      (set_style indicator ''left'' (Px leftPosition) d))))
      | _ \<Rightarrow> (Inr (), d))"

definition hide_content :: "node \<Rightarrow> document \<Rightarrow> document" where
  \<comment> \<open>the body of the first \<^verbatim>\<open>forEach\<close>\<close>
  "hide_content content d = classList_remove content ''active'' (classList_add content ''hidden'' d)"

definition show_selected :: "node \<Rightarrow> document \<Rightarrow> document" where
  \<comment> \<open>the branch \<^verbatim>\<open>if (selectedContent)\<close>\<close>
  "show_selected selectedContent d =
     (let d1 = classList_remove selectedContent ''hidden'' d;
          d2 = classList_add selectedContent ''active'' d1;
          d3 = set_style selectedContent ''opacity'' (Text ''0'') d2;
          d4 = set_style selectedContent ''transform'' (Text ''translateY(10px)'') d3
      in setTimeout_dom (FadeIn selectedContent) 50 d4)"

definition tab_content_selector :: selector where
  "tab_content_selector = [[Class ''tab-content'']]"

definition tab_button_selector :: selector where
  "tab_button_selector = [[Class ''irrigation-tab''], [Class ''tab-button'']]"

definition switchTab :: "string \<Rightarrow> node option \<Rightarrow> document \<Rightarrow> unit result" where
  "switchTab tabId clickedTab d =
     (let allContents = querySelectorAll tab_content_selector d;
          d1 = fold hide_content allContents d;
          selectedContent = getElementById (tabId @ ''-content'') d1;
          d2 = (case selectedContent of None \<Rightarrow> d1 | Some s \<Rightarrow> show_selected s d1);
          allTabs = querySelectorAll tab_button_selector d2;
          d3 = fold (\<lambda>tab. classList_remove tab ''active'') allTabs d2
      in case clickedTab of
           None \<Rightarrow> (Inr (), d3)
         | Some tab \<Rightarrow> updateTabIndicator (Some tab) (classList_add tab ''active'' d3))"

section \<open>FormEnhancement\<close>

text \<open>
  White space as \<^verbatim>\<open>String.prototype.trim\<close> and the class \<^verbatim>\<open>\s\<close> of a regular
  expression understand it: the white space and line terminator code points of ECMA-262.
\<close>

definition is_space :: "nat \<Rightarrow> bool" where
  "is_space c \<longleftrightarrow>
     c \<in> {9, 10, 11, 12, 13, 32, 160, 5760, 8232, 8233, 8239, 8287, 12288, 65279}
     \<or> (8192 \<le> c \<and> c \<le> 8202)"

definition string_trim :: "ustring \<Rightarrow> ustring" where
  "string_trim s = rev (dropWhile is_space (rev (dropWhile is_space s)))"

text \<open>
  \<^verbatim>\<open>/^[^\s@]+@[^\s@]+\.[^\s@]+$/.test(s)\<close>: the string is \<open>a@b.c\<close> with \<open>a\<close>, \<open>b\<close>,
  \<open>c\<close> not empty and free of white space and of \<open>@\<close> (64). So \<open>s\<close> has exactly one
  \<open>@\<close> and no white space, something stands before the \<open>@\<close>, and what follows it has
  a dot (46) that is neither its first nor its last unit.
\<close>

definition emailRegex_test :: "ustring \<Rightarrow> bool" where
  "emailRegex_test s =
     (let local = takeWhile (\<lambda>c. c \<noteq> 64) s;
          rest = dropWhile (\<lambda>c. c \<noteq> 64) s
      in local \<noteq> [] \<and> (\<forall>c \<in> set local. \<not> is_space c) \<and> rest \<noteq> []
         \<and> (let domain = tl rest
            in (\<forall>c \<in> set domain. \<not> is_space c \<and> c \<noteq> 64) \<and> 46 \<in> set (butlast (tl domain))))"

text \<open>
  \<^verbatim>\<open>/^[\+]?[1-9][\d]{0,15}$/.test(s)\<close>: an optional plus sign (43), a digit from 1 to 9,
  and at most fifteen more digits.
\<close>

definition phoneRegex_test :: "ustring \<Rightarrow> bool" where
  "phoneRegex_test s =
     (case (case s of [] \<Rightarrow> [] | c # cs \<Rightarrow> if c = 43 then cs else c # cs) of
        [] \<Rightarrow> False
      | c # cs \<Rightarrow> 49 \<le> c \<and> c \<le> 57 \<and> (\<forall>x \<in> set cs. 48 \<le> x \<and> x \<le> 57) \<and> length cs \<le> 15)"

text \<open>
  A call \<^verbatim>\<open>this.name(...)\<close> on an element: \<^verbatim>\<open>TypeError\<close> unless the element object has
  that function of \<^verbatim>\<open>FormEnhancement\<close> as a property.
\<close>

definition call_method ::
  "string \<Rightarrow> (node \<Rightarrow> document \<Rightarrow> 'a result) \<Rightarrow> node \<Rightarrow> document \<Rightarrow> 'a result" where
  "call_method name impl this d =
     (if name \<in> set (methods (elems d this)) then impl this d else (Inl TypeError, d))"

definition field_error_selector :: selector where
  "field_error_selector = [[Class ''field-error'']]"

definition showFieldError :: "string \<Rightarrow> node \<Rightarrow> document \<Rightarrow> unit result" where
  \<comment> \<open>\<^verbatim>\<open>this.parentElement\<close> is read twice; a \<^verbatim>\<open>null\<close> there throws \<^verbatim>\<open>TypeError\<close>\<close>
  "showFieldError message this d =
     (case parentElement d this of
        None \<Rightarrow> (Inl TypeError, d)
      | Some parent \<Rightarrow>
          (let existingError = element_querySelector parent field_error_selector d;
               d1 = (case existingError of None \<Rightarrow> d | Some x \<Rightarrow> element_remove x d);
               (errorElement, d2) = createElement ''div'' d1;
               d3 = set_className errorElement ''field-error text-error text-sm mt-1'' d2;
               d4 = set_textContent errorElement message d3
           in case parentElement d4 this of
                None \<Rightarrow> (Inl TypeError, d4)
              | Some parent' \<Rightarrow> (Inr (), appendChild parent' errorElement d4)))"

definition fail_field :: "string \<Rightarrow> node \<Rightarrow> document \<Rightarrow> bool result" where
  \<comment> \<open>\<^verbatim>\<open>this.classList.add('error'); this.showFieldError(message); return false;\<close>\<close>
  "fail_field message this d =
     (case call_method ''showFieldError'' (showFieldError message) this
             (classList_add this ''error'' d) of
        (Inl e, d') \<Rightarrow> (Inl e, d')
      | (Inr _, d') \<Rightarrow> (Inr False, d'))"

definition validateField :: "node \<Rightarrow> document \<Rightarrow> bool result" where
  "validateField this d =
     (let val = string_trim (field_value (elems d this));
          fieldType = field_type (elems d this);
          req = required (elems d this);
          d1 = classList_remove this ''success'' (classList_remove this ''error'' d)
      in if req \<and> val = [] then fail_field ''This field is required'' this d1
         else if fieldType = ''email'' \<and> val \<noteq> [] \<and> \<not> emailRegex_test val
         then fail_field ''Please enter a valid email address'' this d1
         else if fieldType = ''tel'' \<and> val \<noteq> []
                 \<and> \<not> phoneRegex_test (filter (\<lambda>c. \<not> is_space c) val)
         then fail_field ''Please enter a valid phone number'' this d1
         else (Inr True, if val \<noteq> [] then classList_add this ''success'' d1 else d1))"

definition form_field_selector :: selector where
  "form_field_selector = [[Tag ''input''], [Tag ''textarea''], [Tag ''select'']]"

fun validate_each :: "node list \<Rightarrow> bool \<Rightarrow> document \<Rightarrow> bool result" where
  \<comment> \<open>the \<^verbatim>\<open>forEach\<close> of \<^verbatim>\<open>validateForm\<close>, with \<^verbatim>\<open>isValid\<close> as it goes\<close>
  "validate_each [] isValid d = (Inr isValid, d)"
| "validate_each (input # inputs) isValid d =
     (case call_method ''validateField'' validateField input d of
        (Inl e, d') \<Rightarrow> (Inl e, d')
      | (Inr ok, d') \<Rightarrow> validate_each inputs (if \<not> ok then False else isValid) d')"

definition validateForm :: "node \<Rightarrow> document \<Rightarrow> bool result" where
  "validateForm this d =
     validate_each (element_querySelectorAll this form_field_selector d) True d"

text \<open>
  The bodies of the listeners. \<open>this\<close> is \<open>None\<close> where it is \<^verbatim>\<open>undefined\<close>;
  \<open>target\<close> is \<^verbatim>\<open>e.target\<close>. The result of \<^verbatim>\<open>validateForm\<close> decides about
  \<^verbatim>\<open>e.preventDefault()\<close>, which changes nothing in the document. A debounced listener
  only sets its timer; \<open>timer_body\<close> is what runs when a timer fires, and there the
  function given to \<^verbatim>\<open>Utils.debounce\<close> is called as \<^verbatim>\<open>func(...args)\<close>, in strict
  mode, so its \<^verbatim>\<open>this\<close> is \<^verbatim>\<open>undefined\<close>.
\<close>

fun listener_body :: "listener \<Rightarrow> node option \<Rightarrow> node \<Rightarrow> document \<Rightarrow> unit result" where
  "listener_body (ToggleMobileMenu menu) this target d = (Inr (), toggleMobileMenu menu d)"
| "listener_body (CloseMobileMenuOutside menu button) this target d =
     (Inr (), closeMobileMenuOutside menu button target d)"
| "listener_body (HideMobileMenuWhenWide menu) this target d =
     (Inr (), hideMobileMenuWhenWide menu d)"
| "listener_body ValidateOnBlur this target d =
     (case this of
        None \<Rightarrow> (Inl TypeError, d)
      | Some n \<Rightarrow> (case call_method ''validateField'' validateField n d of
                    (Inl e, d') \<Rightarrow> (Inl e, d')
                  | (Inr _, d') \<Rightarrow> (Inr (), d')))"
| "listener_body RevalidateOnInput this target d =
     (case this of
        None \<Rightarrow> (Inl TypeError, d)
      | Some n \<Rightarrow>
          if classList_contains d n ''error''
          then (case call_method ''validateField'' validateField n d of
                  (Inl e, d') \<Rightarrow> (Inl e, d')
                | (Inr _, d') \<Rightarrow> (Inr (), d'))
          else (Inr (), d))"
| "listener_body ValidateOnSubmit this target d =
     (case this of
        None \<Rightarrow> (Inl TypeError, d)
      | Some n \<Rightarrow> (case call_method ''validateForm'' validateForm n d of
                    (Inl e, d') \<Rightarrow> (Inl e, d')
                  | (Inr _, d') \<Rightarrow> (Inr (), d')))"
| "listener_body (Debounced wait f) this target d =
     (Inr (), setTimeout_dom (CallWithoutThis f target) wait d)"

fun timer_body :: "timer_action \<Rightarrow> document \<Rightarrow> unit result" where
  "timer_body (FadeIn selectedContent) d =
     (Inr (), set_style selectedContent ''transform'' (Text ''translateY(0)'')
                (set_style selectedContent ''opacity'' (Text ''1'') d))"
| "timer_body (CallWithoutThis f target) d = listener_body f None target d"

text \<open>
  \<^verbatim>\<open>setupFormValidation\<close>: for every form, two listeners on each of its fields and one
  on the form. \<open>dispatch\<close> runs the listeners registered on an element for an event, with
  \<^verbatim>\<open>this\<close> the element, in the order of registration; a listener that throws does not
  keep the next one from running, so the document is threaded through and the results
  are collected.
\<close>

definition field_registrations :: "node \<Rightarrow> registration list" where
  "field_registrations input =
     [(Element input, ''blur'', ValidateOnBlur),
      (Element input, ''input'', Debounced 300 RevalidateOnInput)]"

definition form_registrations :: "document \<Rightarrow> node \<Rightarrow> registration list" where
  "form_registrations d form =
     concat (map field_registrations (element_querySelectorAll form form_field_selector d))
     @ [(Element form, ''submit'', ValidateOnSubmit)]"

definition setupFormValidation :: "document \<Rightarrow> registration list" where
  "setupFormValidation d =
     concat (map (form_registrations d) (querySelectorAll [[Tag ''form'']] d))"

fun run_listeners :: "listener list \<Rightarrow> node \<Rightarrow> document \<Rightarrow> (error + unit) list \<times> document" where
  "run_listeners [] n d = ([], d)"
| "run_listeners (l # ls) n d =
     (let (r, d1) = listener_body l (Some n) n d;
          (rs, d2) = run_listeners ls n d1
      in (r # rs, d2))"

definition listeners_on :: "registration list \<Rightarrow> node \<Rightarrow> string \<Rightarrow> listener list" where
  "listeners_on regs n ev =
     map (\<lambda>r. snd (snd r)) (filter (\<lambda>r. fst r = Element n \<and> fst (snd r) = ev) regs)"

definition dispatch ::
  "registration list \<Rightarrow> node \<Rightarrow> string \<Rightarrow> document \<Rightarrow> (error + unit) list \<times> document" where
  "dispatch regs n ev d = run_listeners (listeners_on regs n ev) n d"



section \<open>Example pages\<close>

text \<open>
  Small pages for the examples: one with the mobile menu, one with two tabs, one with a
  form, the same with an error message under the field, and the same with the functions
  of \<^verbatim>\<open>FormEnhancement\<close> given to the field as properties. Element 0 is the root.
\<close>

definition page_of :: "dtree \<Rightarrow> (node \<times> element) list \<Rightarrow> document" where
  "page_of t es =
     \<lparr>tree = t,
      elems = (\<lambda>n. case map_of es n of None \<Rightarrow> blank_element ''div'' | Some e \<Rightarrow> e),
      next_node = Suc (fold max (map fst es) 0),
      layout = (\<lambda>n. (0, 0)),
      innerWidth = 800,
      timers = []\<rparr>"

definition menu_page :: document where
  "menu_page = page_of
     (Node 0 [Node 1 [], Node 2 []])
     [(0, blank_element ''html''),
      (1, (blank_element ''button'')\<lparr>classList := [''btn'', ''btn-ghost'', ''lg:hidden'']\<rparr>),
      (2, (blank_element ''div'')\<lparr>id_attr := Some ''mobileMenu'', classList := [''hidden'']\<rparr>)]"

definition tabs_page :: document where
  "tabs_page = page_of
     (Node 0 [Node 1 [Node 2 [], Node 3 [], Node 4 []], Node 5 [], Node 6 []])
     [(0, blank_element ''html''),
      (1, blank_element ''div''),
      (2, (blank_element ''button'')\<lparr>classList := [''tab-button'', ''active'']\<rparr>),
      (3, (blank_element ''button'')\<lparr>classList := [''tab-button'']\<rparr>),
      (4, (blank_element ''div'')\<lparr>classList := [''tab-indicator'']\<rparr>),
      (5, (blank_element ''div'')\<lparr>id_attr := Some ''drip-content'',
            classList := [''tab-content'', ''active'']\<rparr>),
      (6, (blank_element ''div'')\<lparr>id_attr := Some ''pivot-content'',
            classList := [''tab-content'', ''hidden'']\<rparr>)]"

definition form_page :: document where
  "form_page = page_of
     (Node 0 [Node 1 [Node 2 [Node 3 []], Node 4 []]])
     [(0, blank_element ''html''),
      (1, blank_element ''form''),
      (2, (blank_element ''div'')\<lparr>classList := [''form-control'']\<rparr>),
      (3, (blank_element ''input'')\<lparr>field_type := ''email'', required := True\<rparr>),
      (4, (blank_element ''button'')\<lparr>field_type := ''submit''\<rparr>)]"

definition error_page :: document where
  "error_page = (page_of
     (Node 0 [Node 1 [Node 2 [Node 3 [], Node 5 []], Node 4 []]])
     [(0, blank_element ''html''),
      (1, blank_element ''form''),
      (2, (blank_element ''div'')\<lparr>classList := [''form-control'']\<rparr>),
      (3, (blank_element ''input'')\<lparr>field_type := ''email'', required := True,
            field_value := lit ''someone@'', classList := [''error'']\<rparr>),
      (4, (blank_element ''button'')\<lparr>field_type := ''submit''\<rparr>),
      (5, (blank_element ''div'')\<lparr>
            classList := [''field-error'', ''text-error'', ''text-sm'', ''mt-1''],
            textContent := ''This field is required''\<rparr>)])"


section \<open>Theorems\<close>

subsection \<open>The debounced wrapper\<close>

lemma inv_init: "debounce_inv wait debounce"
  by (simp add: debounce_inv_def debounce_def)

lemma inv_Invoke:
  assumes "debounce_inv wait s"
  shows "debounce_inv wait (executedFunction wait args s)"
proof -
  have no_later: "snd (snd e) \<noteq> Later a"
    if "e \<in> set (active (clearTimeout (timeout s) s))" for e a
    using that assms by (auto simp: debounce_inv_def clearTimeout_def split: option.splits)
  have sub: "set (active (clearTimeout (timeout s) s)) \<subseteq> set (active s)"
    by (auto simp: clearTimeout_def split: option.splits)
  have dist: "distinct (map fst (active (clearTimeout (timeout s) s)))"
    using assms by (auto simp: debounce_inv_def clearTimeout_def distinct_map_filter split: option.splits)
  have obs: "observed (clearTimeout (timeout s) s) = observed s"
    and nh: "next_handle (clearTimeout (timeout s) s) = next_handle s"
    and ck: "clock (clearTimeout (timeout s) s) = clock s"
    by (auto simp: clearTimeout_def split: option.splits)
  have lt: "\<forall>e \<in> set (active s). fst e < next_handle s"
    using assms by (simp add: debounce_inv_def)
  have wt: "well_timed wait (observed s)"
    using assms by (simp add: debounce_inv_def)
  show ?thesis
    unfolding debounce_inv_def executedFunction_def Let_def setTimeout_def
    using no_later sub dist lt wt
    apply (simp add: clearTimeout_def split: option.splits)
    apply (intro conjI impI allI ballI)
    apply (auto simp: less_Suc_eq)
    done
qed

lemma find_fst_Some:
  "find (\<lambda>e. fst e = i) xs = Some e \<Longrightarrow> e \<in> set xs \<and> fst e = i"
  by (induction xs) (auto split: if_splits)

lemma inv_Fire:
  assumes "debounce_inv wait s"
  shows "debounce_inv wait (fire i s)"
proof (cases "find (\<lambda>e. fst e = i) (active s)")
  case None
  then show ?thesis using assms by (simp add: fire_def)
next
  case (Some e)
  obtain h due cb where e: "e = (h, due, cb)" by (cases e)
  from find_fst_Some [OF Some] e have mem: "(i, due, cb) \<in> set (active s)" and h: "h = i"
    by auto
  let ?s1 = "s\<lparr>active := filter (\<lambda>e. fst e \<noteq> i) (active s)\<rparr>"
  have inv1: "debounce_inv wait ?s1"
    using assms by (auto simp: debounce_inv_def distinct_map_filter)
  show ?thesis
  proof (cases "clock s < due")
    case True
    then show ?thesis using assms Some e by (simp add: fire_def)
  next
    case notearly: False
    show ?thesis
    proof (cases cb)
      case Foreign
      then show ?thesis using inv1 Some e notearly by (simp add: fire_def)
    next
      case (Later a)
      from assms mem Later obtain t0 rest where
        to: "timeout s = Some i" and ob: "observed s = Called t0 a # rest" and due: "due = t0 + wait"
        by (fastforce simp: debounce_inv_def)
      have none: "snd (snd x) \<noteq> Later b" if "x \<in> set (active ?s1)" for x b
        using that assms to by (auto simp: debounce_inv_def)
      have eq: "fire i s = ?s1\<lparr>observed := Ran (clock s) a # observed s\<rparr>"
        using Some e notearly Later to
        by (simp add: fire_def later_def clearTimeout_def)
      have wt: "well_timed wait (observed s)" using assms by (simp add: debounce_inv_def)
      show ?thesis
        unfolding eq using inv1 none ob due notearly wt
        by (auto simp: debounce_inv_def)
    qed
  qed
qed

lemma inv_step: "debounce_inv wait s \<Longrightarrow> debounce_inv wait (step wait ev s)"
proof (cases ev)
  case (Invoke a) then show "debounce_inv wait s \<Longrightarrow> ?thesis" by (simp add: inv_Invoke)
next
  case (Elapse n) then show "debounce_inv wait s \<Longrightarrow> ?thesis" by (simp add: debounce_inv_def)
next
  case (Fire i) then show "debounce_inv wait s \<Longrightarrow> ?thesis" by (simp add: inv_Fire)
next
  case (SetForeign n) then show "debounce_inv wait s \<Longrightarrow> ?thesis"
    by (auto simp: debounce_inv_def setTimeout_def less_Suc_eq)
qed


lemma inv_fold: "debounce_inv wait s \<Longrightarrow> debounce_inv wait (fold (step wait) evs s)"
  by (induction evs arbitrary: s) (simp_all add: inv_step)

lemma inv_run: "debounce_inv wait (run wait evs)"
  unfolding run_def by (rule inv_fold [OF inv_init])

lemma run_snoc: "run wait (evs @ [ev]) = step wait ev (run wait evs)"
  by (simp add: run_def)

lemma same_key_short:
  assumes "distinct (map f xs)" and "\<forall>x \<in> set xs. f x = c"
  shows "length xs \<le> 1"
proof (cases xs)
  case Nil then show ?thesis by simp
next
  case (Cons x ys)
  show ?thesis
  proof (cases ys)
    case Nil with Cons show ?thesis by simp
  next
    case (Cons y zs)
    with \<open>xs = x # ys\<close> assms have "f x = f y" and "f x \<noteq> f y" by auto
    then show ?thesis by simp
  qed
qed

lemma pending_short:
  assumes "debounce_inv wait s"
  shows "length (pending s) \<le> 1"
proof -
  have d: "distinct (map fst (pending s))"
    using assms by (simp add: debounce_inv_def pending_def distinct_map_filter)
  have "\<forall>e \<in> set (pending s). Some (fst e) = timeout s"
  proof
    fix e assume "e \<in> set (pending s)"
    then have m: "e \<in> set (active s)" and nf: "snd (snd e) \<noteq> Foreign"
      by (simp_all add: pending_def)
    from nf obtain a where "snd (snd e) = Later a" by (cases "snd (snd e)") auto
    with m assms show "Some (fst e) = timeout s" by (auto simp: debounce_inv_def)
  qed
  then have "\<forall>e \<in> set (pending s). fst e = the (timeout s)"
    by (metis option.sel)
  with d show ?thesis by (rule same_key_short)
qed

lemma pending_after_Invoke:
  assumes "debounce_inv wait s"
  shows "pending (executedFunction wait args s) = [(next_handle s, clock s + wait, Later args)]"
proof -
  have none: "snd (snd e) = Foreign" if m: "e \<in> set (active (clearTimeout (timeout s) s))" for e
  proof (cases "snd (snd e)")
    case Foreign then show ?thesis .
  next
    case (Later a)
    from m have "e \<in> set (active s)"
      by (auto simp: clearTimeout_def split: option.splits)
    with Later assms have "timeout s = Some (fst e)" by (auto simp: debounce_inv_def)
    with m show ?thesis by (simp add: clearTimeout_def)
  qed
  then have "filter (\<lambda>e. snd (snd e) \<noteq> Foreign) (active (clearTimeout (timeout s) s)) = []"
    unfolding filter_empty_conv by blast
  moreover have "active (executedFunction wait args s)
      = active (clearTimeout (timeout s) s) @ [(next_handle s, clock s + wait, Later args)]"
    by (simp add: executedFunction_def setTimeout_def Let_def clearTimeout_def
          split: option.splits)
  ultimately show ?thesis by (simp add: pending_def)
qed

text \<open>
  C4: in every state the wrapper can reach, at most one timer armed by it is pending; and
  right after any call of the wrapper the pending timers are exactly the one it has just
  armed (the earlier one, if any, was cleared first), due \<open>wait\<close> ms later with the
  arguments of that call.
\<close>

theorem debounce_one_timer_pending:
  "length (pending (run wait evs)) \<le> 1
   \<and> pending (run wait (evs @ [Invoke args]))
       = [(next_handle (run wait evs), clock (run wait evs) + wait, Later args)]"
proof
  from pending_short [OF inv_run] show "length (pending (run wait evs)) \<le> 1" .
  show "pending (run wait (evs @ [Invoke args]))
       = [(next_handle (run wait evs), clock (run wait evs) + wait, Later args)]"
    unfolding run_snoc step.simps by (rule pending_after_Invoke [OF inv_run])
qed

lemma well_timed_nth:
  "well_timed w xs \<Longrightarrow> j < length xs \<Longrightarrow> xs ! j = Ran t a \<Longrightarrow>
     Suc j < length xs \<and> (\<exists>t0. xs ! Suc j = Called t0 a \<and> t0 + w \<le> t)"
proof (induction w xs arbitrary: j rule: well_timed.induct)
  case (2 w t' a' rest)
  then show ?case by (cases j) auto
next
  case (3 w t' a' t0 a0 rest)
  show ?case
  proof (cases j)
    case 0
    with 3 show ?thesis by auto
  next
    case (Suc k)
    show ?thesis
    proof (cases k)
      case 0
      with Suc 3 show ?thesis by auto
    next
      case (Suc m)
      with \<open>j = Suc k\<close> 3 show ?thesis by auto
    qed
  qed
qed simp_all

text \<open>
  C3: trailing-edge debounce with a fixed wait. Whenever \<^verbatim>\<open>func\<close> runs, at time \<open>t\<close> with
  arguments \<open>a\<close>, the observation just before it is a call of the wrapper with the same
  arguments \<open>a\<close> at a time \<open>t0\<close> with \<open>t0 + wait \<le> t\<close>: no wrapper call lies between
  them, the arguments are those of the most recent call, and two runs of \<^verbatim>\<open>func\<close> are
  never adjacent, so each quiet period gives at most one run.
\<close>

theorem debounce_trailing_edge:
  "\<forall>i < length (history (run wait evs)). \<forall>t a.
      history (run wait evs) ! i = Ran t a \<longrightarrow>
        0 < i \<and> (\<exists>t0. history (run wait evs) ! (i - 1) = Called t0 a \<and> t0 + wait \<le> t)"
proof (intro allI impI)
  fix i t a
  let ?xs = "observed (run wait evs)"
  assume i: "i < length (history (run wait evs))"
    and r: "history (run wait evs) ! i = Ran t a"
  let ?j = "length ?xs - Suc i"
  from i have il: "i < length ?xs" by (simp add: history_def)
  then have j: "?j < length ?xs" by simp
  from r il have "?xs ! ?j = Ran t a" by (simp add: history_def rev_nth)
  with well_timed_nth [of wait ?xs ?j t a] inv_run [of wait evs] j
  obtain t0 where sj: "Suc ?j < length ?xs" and c: "?xs ! Suc ?j = Called t0 a" and le: "t0 + wait \<le> t"
    by (auto simp: debounce_inv_def)
  from sj il have pos: "0 < i" by (cases i) auto
  then have "length ?xs - Suc (i - 1) = Suc ?j" using il by simp
  then have "history (run wait evs) ! (i - 1) = ?xs ! Suc ?j"
    using il pos by (simp add: history_def rev_nth)
  with c le pos show "0 < i \<and> (\<exists>t0. history (run wait evs) ! (i - 1) = Called t0 a \<and> t0 + wait \<le> t)"
    by simp
qed

theorem debounce_one_timer_pending_witness:
  "length (pending (run 250 [Invoke (1::int), Elapse 100, Invoke 2, SetForeign 5])) \<le> 1
   \<and> pending (run 250 ([Invoke (1::int), Elapse 100, Invoke 2, SetForeign 5] @ [Invoke 3]))
       = [(4, 350, Later 3)]"
proof -
  have "next_handle (run 250 [Invoke (1::int), Elapse 100, Invoke 2, SetForeign 5]) = 4"
    and "clock (run 250 [Invoke (1::int), Elapse 100, Invoke 2, SetForeign 5]) = 100"
    by code_simp+
  with debounce_one_timer_pending
    [of 250 "[Invoke (1::int), Elapse 100, Invoke 2, SetForeign 5]" 3]
  show ?thesis by simp
qed

lemma demo_history:
  "history (run 250 [Invoke (1::int), Elapse 100, Invoke 2, Elapse 250, Fire 1, Fire 2, Fire 2])
     = [Called 0 1, Called 100 2, Ran 350 2]"
  by code_simp

theorem debounce_trailing_edge_witness:
  "history (run 250 [Invoke (1::int), Elapse 100, Invoke 2, Elapse 250, Fire 1, Fire 2, Fire 2]) ! 2
     = Ran 350 2
   \<and> (\<exists>t0. history (run 250 [Invoke (1::int), Elapse 100, Invoke 2, Elapse 250, Fire 1, Fire 2, Fire 2])
              ! (2 - 1) = Called t0 2 \<and> t0 + 250 \<le> 350)"
proof -
  let ?evs = "[Invoke (1::int), Elapse 100, Invoke 2, Elapse 250, Fire 1, Fire 2, Fire 2]"
  have n: "2 < length (history (run 250 ?evs))" and r: "history (run 250 ?evs) ! 2 = Ran 350 2"
    unfolding demo_history by simp_all
  from debounce_trailing_edge [of 250 ?evs, rule_format, OF n r] r show ?thesis by simp
qed

subsection \<open>The easing function\<close>

lemma easeInOutCubic_unfold:
  assumes "d \<noteq> 0" and "u = t / (d / 2)"
  shows "easeInOutCubic t b c d =
           (if u < 1 then Some (c / 2 * u * u * u + b)
            else Some (c / 2 * ((u - 2) * (u - 2) * (u - 2) + 2) + b))"
  using assms by (simp add: easeInOutCubic_def Let_def del: divide_divide_eq_right)

lemma easeInOutCubic_first_half:
  assumes "d \<noteq> 0" and "0 \<le> t" and "t \<le> d / 2"
  shows "easeInOutCubic t b c d = Some (c / 2 * (2 * t / d) ^ 3 + b)"
proof -
  define u where "u = 2 * t / d"
  from assms have dpos: "0 < d" by (cases "d < 0") auto
  have u: "u = t / (d / 2)" by (simp add: u_def)
  have le: "u \<le> 1" using dpos assms(3) by (simp add: u_def field_simps)
  show ?thesis
  proof (cases "u < 1")
    case True
    then show ?thesis
      unfolding easeInOutCubic_unfold [OF assms(1) u] u_def [symmetric]
      by (simp add: power3_eq_cube mult.assoc)
  next
    case False
    with le have "u = 1" by simp
    then show ?thesis
      unfolding easeInOutCubic_unfold [OF assms(1) u] u_def [symmetric]
      by simp
  qed
qed

text \<open>
  C7: for a nonzero duration \<open>d\<close> the easing function returns \<open>b\<close> at \<open>t = 0\<close>,
  \<open>b + c\<close> at \<open>t = d\<close>, \<open>b + c / 2\<close> at \<open>t = d / 2\<close>, and equals
  \<open>c / 2 * (2 t / d)^3 + b\<close> for every \<open>t\<close> in \<open>[0, d / 2]\<close>.
\<close>

theorem easeInOutCubic_cubic_ease:
  assumes "d \<noteq> 0"
  shows "easeInOutCubic 0 b c d = Some b
       \<and> easeInOutCubic d b c d = Some (b + c)
       \<and> easeInOutCubic (d / 2) b c d = Some (b + c / 2)
       \<and> (\<forall>t. 0 \<le> t \<and> t \<le> d / 2 \<longrightarrow>
              easeInOutCubic t b c d = Some (c / 2 * (2 * t / d) ^ 3 + b))"
proof -
  have a: "easeInOutCubic 0 b c d = Some b"
    using assms by (simp add: easeInOutCubic_def)
  have b: "easeInOutCubic d b c d = Some (b + c)"
    using assms by (simp add: easeInOutCubic_def)
  have c: "easeInOutCubic (d / 2) b c d = Some (b + c / 2)"
    using assms by (simp add: easeInOutCubic_def)
  from a b c easeInOutCubic_first_half [OF assms] show ?thesis by blast
qed

theorem easeInOutCubic_cubic_ease_witness:
  "(1000::rat) \<noteq> 0
   \<and> easeInOutCubic 0 640 (- 640) 1000 = Some 640
   \<and> easeInOutCubic 1000 640 (- 640) 1000 = Some 0
   \<and> easeInOutCubic 500 640 (- 640) 1000 = Some 320
   \<and> easeInOutCubic 250 640 (- 640) 1000 = Some 600"
proof -
  have h: "(1000::rat) \<noteq> 0" by simp
  have q: "(0::rat) \<le> 250 \<and> (250::rat) \<le> 1000 / 2" by simp
  from easeInOutCubic_cubic_ease [OF h, of 640 "- 640"] q show ?thesis
    by (simp add: power3_eq_cube)
qed

subsection \<open>Strings\<close>

lemma string_split_not_Nil: "string_split sep s \<noteq> []"
  by (induction s) (auto split: list.splits)

lemma string_split_no_sep: "sep \<notin> set s \<Longrightarrow> string_split sep s = [s]"
  by (induction s) auto

lemma string_split_sep_length: "sep \<in> set s \<Longrightarrow> 2 \<le> length (string_split sep s)"
proof (induction s)
  case Nil
  then show ?case by simp
next
  case (Cons c cs)
  show ?case
  proof (cases "c = sep")
    case True
    with string_split_not_Nil [of sep cs] show ?thesis
      by (cases "string_split sep cs") auto
  next
    case False
    with Cons show ?thesis by (auto split: list.splits)
  qed
qed

lemma last_string_split_Cons:
  "last (string_split sep (c # cs)) =
     (if sep \<in> set cs then last (string_split sep cs)
      else if c = sep then cs else c # cs)"
proof (cases "sep \<in> set cs")
  case True
  from string_split_sep_length [OF True] obtain p q qs where
    "string_split sep cs = p # q # qs"
    by (cases "string_split sep cs"; cases "tl (string_split sep cs)") auto
  with True show ?thesis by auto
next
  case False
  then show ?thesis by (simp add: string_split_no_sep)
qed

lemma last_segment_Cons:
  "last_segment (c # cs) =
     (if 47 \<in> set cs then last_segment cs else if c = 47 then cs else c # cs)"
proof (cases "47 \<in> set cs")
  case True
  then have "takeWhile (\<lambda>x. x \<noteq> 47) (rev cs @ [c]) = takeWhile (\<lambda>x. x \<noteq> 47) (rev cs)"
    by (intro takeWhile_append1 [of 47]) simp_all
  with True show ?thesis by (simp add: last_segment_def)
next
  case False
  then have "takeWhile (\<lambda>x. x \<noteq> 47) (rev cs @ [c]) = rev cs @ takeWhile (\<lambda>x. x \<noteq> 47) [c]"
    by (intro takeWhile_append2) auto
  with False show ?thesis by (simp add: last_segment_def)
qed

lemma pop_split_is_last_segment:
  "array_pop (string_split 47 path) = Some (last_segment path)"
proof -
  have "last (string_split 47 path) = last_segment path"
  proof (induction path)
    case Nil
    show ?case by (simp add: last_segment_def)
  next
    case (Cons c cs)
    show ?case
      unfolding last_string_split_Cons last_segment_Cons using Cons by simp
  qed
  then show ?thesis by (simp add: array_pop_def string_split_not_Nil)
qed

lemma occurs_at_0: "occurs_at pat s 0 \<longleftrightarrow> take (length pat) s = pat"
proof
  assume a: "take (length pat) s = pat"
  from arg_cong [OF a, of length] have "min (length s) (length pat) = length pat"
    by (simp only: length_take)
  with a show "occurs_at pat s 0" by (simp add: occurs_at_def)
qed (simp add: occurs_at_def)

lemma occurs_at_Suc: "occurs_at pat (c # cs) (Suc i) \<longleftrightarrow> occurs_at pat cs i"
  by (simp add: occurs_at_def)

lemma string_replace_first:
  "occurs_at pat s i \<Longrightarrow> (\<forall>j<i. \<not> occurs_at pat s j) \<Longrightarrow>
     string_replace pat rep s = take i s @ rep @ drop (i + length pat) s"
proof (induction s arbitrary: i)
  case Nil
  then show ?case by (auto simp: occurs_at_def)
next
  case (Cons c cs)
  show ?case
  proof (cases i)
    case 0
    with Cons.prems show ?thesis by (simp add: occurs_at_0)
  next
    case (Suc k)
    with Cons.prems have no0: "take (length pat) (c # cs) \<noteq> pat"
      using occurs_at_0 [of pat "c # cs"] by blast
    from Suc Cons.prems have "occurs_at pat cs k" and "\<forall>j<k. \<not> occurs_at pat cs j"
      using occurs_at_Suc [of pat c cs] by auto
    from Cons.IH [OF this] no0 Suc show ?thesis by simp
  qed
qed

lemma string_replace_none:
  "(\<forall>i. \<not> occurs_at pat s i) \<Longrightarrow> string_replace pat rep s = s"
proof (induction s)
  case Nil
  then show ?case using occurs_at_0 [of pat "[]"] by auto
next
  case (Cons c cs)
  then have "take (length pat) (c # cs) \<noteq> pat" and "\<forall>i. \<not> occurs_at pat cs i"
    using occurs_at_0 [of pat "c # cs"] occurs_at_Suc [of pat c cs] by blast+
  with Cons.IH show ?case by simp
qed

lemma string_replace_self: "string_replace pat rep pat = rep"
  by (cases pat) simp_all

lemma occurs_at_bound: "occurs_at pat s i \<Longrightarrow> i < Suc (length s)"
  by (simp add: occurs_at_def)

lemma string_replace_removes_first:
  "string_replace pat [] s = remove_first_occurrence pat s"
proof (cases "find (occurs_at pat s) [0..<Suc (length s)]")
  case None
  have "\<not> occurs_at pat s i" for i
  proof
    assume o: "occurs_at pat s i"
    from occurs_at_bound [OF o] have "i \<in> set [0..<Suc (length s)]" by auto
    with o None show False unfolding find_None_iff by blast
  qed
  then have "\<forall>i. \<not> occurs_at pat s i" by blast
  from string_replace_none [OF this] None show ?thesis
    by (simp add: remove_first_occurrence_def)
next
  case (Some i)
  then have "occurs_at pat s i" and "\<forall>j<i. \<not> occurs_at pat s j"
    unfolding find_Some_iff by (auto simp: nth_upt simp del: upt_Suc)
  from string_replace_first [OF this, of "[]"] Some show ?thesis
    by (simp add: remove_first_occurrence_def)
qed

lemma Decode_no_percent: "37 \<notin> set s \<Longrightarrow> Decode s = Inr s"
  by (induction s) auto

lemma Decode_only_URIError: "Decode s = Inl e \<Longrightarrow> e = URIError"
proof (induction s rule: Decode.induct)
  case 1
  then show ?case by simp
next
  case (2 c cs)
  show ?case
  proof (cases "c \<noteq> 37")
    case True
    with 2(1) 2(4) show ?thesis by (auto split: sum.splits)
  next
    case False
    show ?thesis
    proof (cases cs)
      case Nil
      with False 2(4) show ?thesis by simp
    next
      case (Cons h1 r1)
      show ?thesis
      proof (cases r1)
        case Nil
        with Cons False 2(4) show ?thesis by simp
      next
        case (Cons h2 rest)
        note cs = \<open>cs = h1 # r1\<close> Cons
        show ?thesis
        proof (cases "ParseHexOctet h1 h2")
          case None
          with cs False 2(4) show ?thesis by simp
        next
          case (Some b)
          show ?thesis
          proof (cases "leading_ones b = 0")
            case True
            with 2(2) [OF False cs(1) cs(2) Some refl True] cs False Some 2(4)
            show ?thesis by (auto split: sum.splits)
          next
            case n0: False
            show ?thesis
            proof (cases "leading_ones b = 1 \<or> 4 < leading_ones b")
              case True
              with cs False Some n0 2(4) show ?thesis by (auto simp: Let_def)
            next
              case n1: False
              show ?thesis
              proof (cases "continuation (leading_ones b - 1) rest")
                case None
                with cs False Some n0 n1 2(4) show ?thesis by (auto simp: Let_def)
              next
                case c: (Some pr)
                obtain octs rest' where pr: "pr = (octs, rest')" by (cases pr)
                show ?thesis
                proof (cases "utf8_code_point (leading_ones b) b octs")
                  case None
                  with cs False Some n0 n1 c pr 2(4) show ?thesis by (auto simp: Let_def)
                next
                  case v: (Some v)
                  from 2(3) [OF False cs(1) cs(2) Some refl n0 n1 c [unfolded pr] refl v]
                    cs False Some n0 n1 c pr v 2(4)
                  show ?thesis by (auto simp: Let_def split: sum.splits)
                qed
              qed
            qed
          qed
        qed
      qed
    qed
  qed
qed

lemma lit_homepage_no_percent: "37 \<notin> set (lit ''homepage'')"
  by (simp add: lit_def)

text \<open>
  C10, as amended: with \<open>r\<close> the last path segment without the first occurrence of
  \<^verbatim>\<open>.html\<close>, the page name is what \<^verbatim>\<open>decodeURIComponent\<close> makes of \<open>r\<close>, or of
  \<^verbatim>\<open>homepage\<close> when \<open>r\<close> is empty: the removal comes before the decoding. So the result is
  \<^verbatim>\<open>homepage\<close> whenever \<open>r\<close> is empty, as when the path ends in a slash or its last
  segment is exactly \<^verbatim>\<open>.html\<close>; it is \<open>r\<close> itself when \<open>r\<close> has no percent sign; and
  the call throws exactly when \<^verbatim>\<open>decodeURIComponent\<close> does, and then \<^verbatim>\<open>URIError\<close>.
\<close>

theorem getCurrentPageName_stripped_segment:
  fixes path :: ustring
  defines "r \<equiv> remove_first_occurrence (lit ''.html'') (last_segment path)"
  shows "getCurrentPageName path = decodeURIComponent (if r = [] then lit ''homepage'' else r)
       \<and> (r = [] \<longrightarrow> getCurrentPageName path = Inr (lit ''homepage''))
       \<and> (path \<noteq> [] \<and> last path = 47 \<longrightarrow> getCurrentPageName path = Inr (lit ''homepage''))
       \<and> (last_segment path = lit ''.html'' \<longrightarrow> getCurrentPageName path = Inr (lit ''homepage''))
       \<and> (r \<noteq> [] \<and> 37 \<notin> set r \<longrightarrow> getCurrentPageName path = Inr r)
       \<and> (\<forall>e. getCurrentPageName path = Inl e \<longrightarrow> e = URIError)"
proof -
  have main: "getCurrentPageName path = decodeURIComponent (if r = [] then lit ''homepage'' else r)"
    by (simp add: getCurrentPageName_def pop_split_is_last_segment Let_def
          string_replace_removes_first r_def)
  have home: "getCurrentPageName path = Inr (lit ''homepage'')" if "r = []"
    using that main Decode_no_percent [OF lit_homepage_no_percent]
    by (simp add: decodeURIComponent_def)
  have slash: "r = []" if "path \<noteq> []" and "last path = 47"
  proof -
    from that have "last_segment path = []"
      by (cases path rule: rev_cases) (simp_all add: last_segment_def)
    then show ?thesis by (simp add: r_def string_replace_removes_first [symmetric])
  qed
  have html: "r = []" if "last_segment path = lit ''.html''"
    by (simp add: r_def that string_replace_removes_first [symmetric] string_replace_self)
  have plain: "getCurrentPageName path = Inr r" if "r \<noteq> []" and "37 \<notin> set r"
    using that main Decode_no_percent [of r] by (simp add: decodeURIComponent_def)
  have err: "e = URIError" if "getCurrentPageName path = Inl e" for e
    using that main Decode_only_URIError [of _ e] by (simp add: decodeURIComponent_def)
  from main home slash html plain err show ?thesis by blast
qed

lemma getCurrentPageName_demo:
  "getCurrentPageName (lit ''/pages/Center%20Pivot%20Irrigation%20Detail.html'')
     = Inr (lit ''Center Pivot Irrigation Detail'')"
  by code_simp

theorem getCurrentPageName_stripped_segment_witness:
  "remove_first_occurrence (lit ''.html'') (last_segment (lit ''/products/index.html''))
     = lit ''index''
   \<and> getCurrentPageName (lit ''/products/index.html'') = Inr (lit ''index'')
   \<and> getCurrentPageName (lit ''/products/'') = Inr (lit ''homepage'')"
proof -
  have r: "remove_first_occurrence (lit ''.html'') (last_segment (lit ''/products/index.html''))
            = lit ''index''"
    by code_simp
  have n: "lit ''index'' \<noteq> [] \<and> 37 \<notin> set (lit ''index'')"
    by (simp add: lit_def)
  have s: "lit ''/products/'' \<noteq> [] \<and> last (lit ''/products/'') = 47"
    by (simp add: lit_def)
  note t1 = getCurrentPageName_stripped_segment [of "lit ''/products/index.html''", unfolded r]
  from t1 n have a: "getCurrentPageName (lit ''/products/index.html'') = Inr (lit ''index'')"
    by blast
  note t2 = getCurrentPageName_stripped_segment [of "lit ''/products/''"]
  from t2 s have b: "getCurrentPageName (lit ''/products/'') = Inr (lit ''homepage'')"
    by blast
  from r a b show ?thesis by blast
qed

theorem getCurrentPageName_throws_counterexample:
  "getCurrentPageName (lit ''/100%.html'') = Inl URIError"
  by code_simp

subsection \<open>The DOMContentLoaded handler\<close>

lemma init_each_prefix: "\<exists>k. fst (init_each init ms w) = take k ms"
proof (induction ms arbitrary: w)
  case Nil
  show ?case by simp
next
  case (Cons m ms)
  show ?case
  proof (cases "init m w")
    case (Inl e)
    then have "fst (init_each init (m # ms) w) = take 1 (m # ms)" by simp
    then show ?thesis by blast
  next
    case (Inr w')
    from Cons [of w'] obtain k where "fst (init_each init ms w') = take k ms" by blast
    with Inr have "fst (init_each init (m # ms) w) = take (Suc k) (m # ms)"
      by (simp add: case_prod_unfold Let_def)
    then show ?thesis by blast
  qed
qed

lemma init_each_returns:
  "snd (init_each init ms w) = Inr w' \<Longrightarrow> fst (init_each init ms w) = ms"
proof (induction ms arbitrary: w)
  case Nil
  then show ?case by simp
next
  case (Cons m ms)
  then show ?case
    by (cases "init m w") (auto simp: case_prod_unfold Let_def)
qed

lemma init_each_total:
  "\<forall>m w. \<exists>w'. init m w = Inr w' \<Longrightarrow> \<exists>w'. init_each init ms w = (ms, Inr w')"
proof (induction ms arbitrary: w)
  case Nil
  show ?case by simp
next
  case (Cons m ms)
  from Cons.prems obtain w1 where w1: "init m w = Inr w1" by blast
  from Cons.IH [OF Cons.prems, of w1] obtain w' where "init_each init ms w1 = (ms, Inr w')"
    by blast
  with w1 show ?case by simp
qed

text \<open>
  C1, as amended: the modules whose \<^verbatim>\<open>init\<close> the handler calls are always the first few
  of the fixed order navigation, form, card, tab, button, scroll, image, performance,
  accessibility, each at most once; they are all nine, each exactly once and in that
  order, whenever the handler returns, and it returns whenever the page-name check and
  every \<^verbatim>\<open>init\<close> return. When the page-name check throws, no module is initialised.
\<close>

theorem onDOMContentLoaded_init_order:
  "init_order =
     [NavigationEnhancement, FormEnhancement, CardEnhancement, TabEnhancement,
      ButtonEnhancement, ScrollEnhancement, ImageEnhancement, PerformanceEnhancement,
      AccessibilityEnhancement]
   \<and> distinct init_order
   \<and> (\<exists>k. fst (onDOMContentLoaded env disableAnimations init w) = take k init_order)
   \<and> (\<forall>w'. snd (onDOMContentLoaded env disableAnimations init w) = Inr w' \<longrightarrow>
          fst (onDOMContentLoaded env disableAnimations init w) = init_order)
   \<and> ((\<exists>b. shouldDisableCardAnimations env = Inr b) \<and> (\<forall>m v. \<exists>v'. init m v = Inr v') \<longrightarrow>
          (\<exists>w'. onDOMContentLoaded env disableAnimations init w = (init_order, Inr w')))
   \<and> (\<forall>e. shouldDisableCardAnimations env = Inl e \<longrightarrow>
          onDOMContentLoaded env disableAnimations init w = ([], Inl e))"
proof -
  have pre: "\<exists>k. fst (onDOMContentLoaded env disableAnimations init w) = take k init_order"
  proof (cases "shouldDisableCardAnimations env")
    case (Inl e)
    then have "fst (onDOMContentLoaded env disableAnimations init w) = take 0 init_order"
      by (simp add: onDOMContentLoaded_def)
    then show ?thesis by blast
  next
    case (Inr b)
    then show ?thesis
      using init_each_prefix [of init init_order]
      by (simp add: onDOMContentLoaded_def)
  qed
  have ret: "fst (onDOMContentLoaded env disableAnimations init w) = init_order"
    if "snd (onDOMContentLoaded env disableAnimations init w) = Inr w'" for w'
  proof (cases "shouldDisableCardAnimations env")
    case (Inl e)
    with that show ?thesis by (simp add: onDOMContentLoaded_def)
  next
    case (Inr b)
    with that show ?thesis
      using init_each_returns [of init init_order _ w']
      by (simp add: onDOMContentLoaded_def split: if_splits)
  qed
  have tot: "\<exists>w'. onDOMContentLoaded env disableAnimations init w = (init_order, Inr w')"
    if "\<exists>b. shouldDisableCardAnimations env = Inr b" and "\<forall>m v. \<exists>v'. init m v = Inr v'"
  proof -
    from that(1) obtain b where "shouldDisableCardAnimations env = Inr b" by blast
    then show ?thesis
      using init_each_total [OF that(2), of init_order]
      by (simp add: onDOMContentLoaded_def)
  qed
  have thr: "onDOMContentLoaded env disableAnimations init w = ([], Inl e)"
    if "shouldDisableCardAnimations env = Inl e" for e
    using that by (simp add: onDOMContentLoaded_def)
  have dist: "distinct init_order" by (simp add: init_order_def)
  from pre ret tot thr dist show ?thesis
    unfolding init_order_def [symmetric] by (intro conjI allI impI) (auto simp: init_order_def)
qed

theorem onDOMContentLoaded_init_order_witness:
  "shouldDisableCardAnimations
      \<lparr>pathname = lit ''/index.html'', href = lit ''http://h/index.html'', title = lit ''Home''\<rparr>
     = Inr False
   \<and> (\<exists>w'. onDOMContentLoaded
        \<lparr>pathname = lit ''/index.html'', href = lit ''http://h/index.html'', title = lit ''Home''\<rparr>
        id (\<lambda>m v. Inr (v @ [m])) [] = (init_order, Inr w'))"
proof -
  let ?env = "\<lparr>pathname = lit ''/index.html'', href = lit ''http://h/index.html'',
                 title = lit ''Home''\<rparr>"
  have a: "shouldDisableCardAnimations ?env = Inr False" by code_simp
  have b: "\<forall>m v. \<exists>v'. (Inr (v @ [m]) :: error + module list) = Inr v'" by blast
  from onDOMContentLoaded_init_order [of ?env id "\<lambda>m v. Inr (v @ [m])" "[]"] a b
  show ?thesis by blast
qed

theorem onDOMContentLoaded_none_initialised_counterexample:
  "onDOMContentLoaded
     \<lparr>pathname = lit ''/100%.html'', href = lit ''http://h/100%.html'', title = lit ''Home''\<rparr>
     id (\<lambda>m v. Inr (v @ [m])) [] = ([], Inl URIError)"
  by code_simp

subsection \<open>Class lists and queries\<close>

lemma contains_classList_add [simp]:
  "classList_contains (classList_add n c d) m x
     \<longleftrightarrow> (m = n \<and> x = c) \<or> classList_contains d m x"
  by (auto simp: classList_contains_def classList_add_def update_element_def token_add_def)

lemma contains_classList_remove [simp]:
  "classList_contains (classList_remove n c d) m x
     \<longleftrightarrow> classList_contains d m x \<and> \<not> (m = n \<and> x = c)"
  by (auto simp: classList_contains_def classList_remove_def update_element_def token_remove_def)

lemma contains_set_style [simp]:
  "classList_contains (set_style n prop v d) m x \<longleftrightarrow> classList_contains d m x"
  by (simp add: classList_contains_def set_style_def update_element_def)

lemma contains_setTimeout_dom [simp]:
  "classList_contains (setTimeout_dom a delay d) m x \<longleftrightarrow> classList_contains d m x"
  by (simp add: classList_contains_def setTimeout_dom_def)

lemma tree_update_element [simp]: "tree (update_element n f d) = tree d"
  by (simp add: update_element_def)

lemma tree_setTimeout_dom [simp]: "tree (setTimeout_dom a delay d) = tree d"
  by (simp add: setTimeout_dom_def)

lemma tree_class_ops [simp]:
  "tree (classList_add n c d) = tree d"
  "tree (classList_remove n c d) = tree d"
  "tree (set_style n prop v d) = tree d"
  by (simp_all add: classList_add_def classList_remove_def set_style_def)

lemma id_attr_class_ops [simp]:
  "id_attr (elems (classList_add n c d) m) = id_attr (elems d m)"
  "id_attr (elems (classList_remove n c d) m) = id_attr (elems d m)"
  "id_attr (elems (set_style n prop v d) m) = id_attr (elems d m)"
  "id_attr (elems (setTimeout_dom a delay d) m) = id_attr (elems d m)"
  by (simp_all add: classList_add_def classList_remove_def set_style_def update_element_def
        setTimeout_dom_def)

lemma matches_cong_classes:
  assumes "only_classes sel"
    and "\<forall>c \<in> class_names sel. classList_contains d' n c \<longleftrightarrow> classList_contains d n c"
  shows "matches sel (elems d' n) \<longleftrightarrow> matches sel (elems d n)"
proof -
  have "holds (elems d' n) s \<longleftrightarrow> holds (elems d n) s" if "alt \<in> set sel" and "s \<in> set alt" for alt s
  proof -
    from assms(1) that obtain c where c: "s = Class c" by (auto simp: only_classes_def)
    with that have "c \<in> class_names sel" by (auto simp: class_names_def)
    with assms(2) c show ?thesis by (simp add: classList_contains_def)
  qed
  then show ?thesis unfolding matches_def by blast
qed

lemma querySelectorAll_cong_classes:
  assumes "only_classes sel" and "tree d' = tree d"
    and "\<forall>n. \<forall>c \<in> class_names sel. classList_contains d' n c \<longleftrightarrow> classList_contains d n c"
  shows "querySelectorAll sel d' = querySelectorAll sel d"
proof -
  have "matches sel (elems d' n) \<longleftrightarrow> matches sel (elems d n)" for n
    using assms(1,3) by (intro matches_cong_classes) auto
  with assms(2) show ?thesis by (simp add: querySelectorAll_def)
qed

subsection \<open>The mobile menu\<close>

lemma token_toggle_flips: "c \<in> set (token_toggle c cs) \<longleftrightarrow> c \<notin> set cs"
  by (simp add: token_toggle_def token_add_def token_remove_def)

lemma classList_set_style [simp]:
  "classList (elems (set_style n prop v d) m) = classList (elems d m)"
  by (simp add: set_style_def update_element_def)

lemma toggleMobileMenu_flips:
  "classList_contains (toggleMobileMenu mobileMenu d) mobileMenu ''hidden''
     \<longleftrightarrow> \<not> classList_contains d mobileMenu ''hidden''"
proof -
  have "classList (elems (toggleMobileMenu mobileMenu d) mobileMenu)
          = token_toggle ''hidden'' (classList (elems d mobileMenu))"
    by (simp add: toggleMobileMenu_def Let_def classList_toggle_def update_element_def)
  then show ?thesis
    by (simp only: classList_contains_def token_toggle_flips)
qed

text \<open>
  C5: when the page has both the mobile menu button and the element \<^verbatim>\<open>#mobileMenu\<close>,
  \<^verbatim>\<open>setupMobileMenu\<close> registers one click listener on the button, and a click on the
  button, at any later state of the document, flips the membership of \<^verbatim>\<open>hidden\<close> in
  the class list of the menu: the menu has the class after the click if and only if it did
  not have it before.
\<close>

theorem mobile_menu_click_toggles_hidden:
  assumes "querySelector [[Class ''btn-ghost'', Class ''lg:hidden'']] d0 = Some mobileMenuButton"
    and "getElementById ''mobileMenu'' d0 = Some mobileMenu"
  shows "listeners_on (setupMobileMenu d0) mobileMenuButton ''click'' = [ToggleMobileMenu mobileMenu]
       \<and> fst (dispatch (setupMobileMenu d0) mobileMenuButton ''click'' d) = [Inr ()]
       \<and> (classList_contains
             (snd (dispatch (setupMobileMenu d0) mobileMenuButton ''click'' d)) mobileMenu ''hidden''
            \<longleftrightarrow> \<not> classList_contains d mobileMenu ''hidden'')"
proof -
  have l: "listeners_on (setupMobileMenu d0) mobileMenuButton ''click''
             = [ToggleMobileMenu mobileMenu]"
    using assms by (simp add: setupMobileMenu_def listeners_on_def)
  then have "dispatch (setupMobileMenu d0) mobileMenuButton ''click'' d
               = ([Inr ()], toggleMobileMenu mobileMenu d)"
    by (simp add: dispatch_def)
  with l toggleMobileMenu_flips [of mobileMenu d] show ?thesis by simp
qed

theorem mobile_menu_click_toggles_hidden_witness:
  "querySelector [[Class ''btn-ghost'', Class ''lg:hidden'']] menu_page = Some 1
   \<and> getElementById ''mobileMenu'' menu_page = Some 2
   \<and> classList_contains menu_page 2 ''hidden''
   \<and> \<not> classList_contains (snd (dispatch (setupMobileMenu menu_page) 1 ''click'' menu_page))
          2 ''hidden''"
proof -
  have a: "querySelector [[Class ''btn-ghost'', Class ''lg:hidden'']] menu_page = Some 1"
    by code_simp
  have b: "getElementById ''mobileMenu'' menu_page = Some 2" by code_simp
  have c: "classList_contains menu_page 2 ''hidden''" by code_simp
  from mobile_menu_click_toggles_hidden [OF a b, of menu_page] a b c
  show ?thesis by blast
qed

subsection \<open>Switching tabs\<close>

lemma tree_hide_content [simp]: "tree (hide_content n d) = tree d"
  by (simp add: hide_content_def)

lemma contains_hide_content [simp]:
  "classList_contains (hide_content n d) m x
     \<longleftrightarrow> (if m = n then (x = ''hidden'' \<or> classList_contains d m x) \<and> x \<noteq> ''active''
          else classList_contains d m x)"
  by (auto simp: hide_content_def)

lemma id_attr_hide_content [simp]: "id_attr (elems (hide_content n d) m) = id_attr (elems d m)"
  by (simp add: hide_content_def)

lemma fold_hide_content:
  "tree (fold hide_content ns d) = tree d
   \<and> (\<forall>m. id_attr (elems (fold hide_content ns d) m) = id_attr (elems d m))
   \<and> (\<forall>m x. classList_contains (fold hide_content ns d) m x
        \<longleftrightarrow> (if m \<in> set ns then (x = ''hidden'' \<or> classList_contains d m x) \<and> x \<noteq> ''active''
             else classList_contains d m x))"
proof (induction ns arbitrary: d)
  case Nil
  show ?case by simp
next
  case (Cons n ns)
  from Cons [of "hide_content n d"] show ?case by auto
qed

lemma fold_remove_active:
  "tree (fold (\<lambda>tab. classList_remove tab ''active'') ns d) = tree d
   \<and> (\<forall>m. id_attr (elems (fold (\<lambda>tab. classList_remove tab ''active'') ns d) m)
           = id_attr (elems d m))
   \<and> (\<forall>m x. classList_contains (fold (\<lambda>tab. classList_remove tab ''active'') ns d) m x
        \<longleftrightarrow> classList_contains d m x \<and> \<not> (m \<in> set ns \<and> x = ''active''))"
proof (induction ns arbitrary: d)
  case Nil
  show ?case by simp
next
  case (Cons n ns)
  from Cons [of "classList_remove n ''active'' d"] show ?case by auto
qed

lemma show_selected_facts:
  "tree (show_selected s d) = tree d"
  "id_attr (elems (show_selected s d) m) = id_attr (elems d m)"
  "classList_contains (show_selected s d) m x
     \<longleftrightarrow> (m = s \<and> x = ''active'') \<or> (classList_contains d m x \<and> \<not> (m = s \<and> x = ''hidden''))"
  by (auto simp: show_selected_def Let_def)

lemma updateTabIndicator_facts:
  "tree (snd (updateTabIndicator t d)) = tree d"
  "id_attr (elems (snd (updateTabIndicator t d)) m) = id_attr (elems d m)"
  "classList_contains (snd (updateTabIndicator t d)) m x \<longleftrightarrow> classList_contains d m x"
  by (auto simp: updateTabIndicator_def Let_def split: option.splits)

lemma getElementById_cong:
  "tree d' = tree d \<Longrightarrow> (\<forall>m. id_attr (elems d' m) = id_attr (elems d m)) \<Longrightarrow>
     getElementById i d' = getElementById i d"
  by (simp add: getElementById_def)

lemma tab_selectors_classes:
  "only_classes tab_content_selector" "only_classes tab_button_selector"
  "class_names tab_content_selector = {''tab-content''}"
  "class_names tab_button_selector = {''irrigation-tab'', ''tab-button''}"
  by (auto simp: only_classes_def class_names_def tab_content_selector_def tab_button_selector_def)

lemma switchTab_effect:
  fixes tabId :: string and tab :: node and d :: document
  defines "d' \<equiv> snd (switchTab tabId (Some tab) d)"
  defines "contents \<equiv> set (querySelectorAll tab_content_selector d)"
  defines "tabs \<equiv> set (querySelectorAll tab_button_selector d)"
  defines "selected \<equiv> getElementById (tabId @ ''-content'') d"
  shows "tree d' = tree d"
    and "id_attr (elems d' m) = id_attr (elems d m)"
    and "classList_contains d' m ''hidden''
           \<longleftrightarrow> (m \<in> contents \<or> classList_contains d m ''hidden'') \<and> selected \<noteq> Some m"
    and "classList_contains d' m ''active''
           \<longleftrightarrow> m = tab \<or> (m \<notin> tabs \<and> (selected = Some m
                              \<or> (m \<notin> contents \<and> classList_contains d m ''active'')))"
    and "x \<noteq> ''hidden'' \<Longrightarrow> x \<noteq> ''active'' \<Longrightarrow>
           classList_contains d' m x \<longleftrightarrow> classList_contains d m x"
proof -
  define d1 where "d1 = fold hide_content (querySelectorAll tab_content_selector d) d"
  define d2 where "d2 = (case selected of None \<Rightarrow> d1 | Some s \<Rightarrow> show_selected s d1)"
  define d3 where
    "d3 = fold (\<lambda>t. classList_remove t ''active'') (querySelectorAll tab_button_selector d) d2"
  define d4 where "d4 = classList_add tab ''active'' d3"
  note f1 = fold_hide_content [of "querySelectorAll tab_content_selector d" d, folded d1_def]
  have t1: "tree d1 = tree d" and i1: "\<And>m. id_attr (elems d1 m) = id_attr (elems d m)"
    and c1: "\<And>m x. classList_contains d1 m x
        \<longleftrightarrow> (if m \<in> contents then (x = ''hidden'' \<or> classList_contains d m x) \<and> x \<noteq> ''active''
             else classList_contains d m x)"
    using f1 by (simp_all add: contents_def)
  have sel1: "getElementById (tabId @ ''-content'') d1 = selected"
    unfolding selected_def using t1 i1 by (intro getElementById_cong) simp_all
  have t2: "tree d2 = tree d" and i2: "\<And>m. id_attr (elems d2 m) = id_attr (elems d m)"
    and c2: "\<And>m x. classList_contains d2 m x
        \<longleftrightarrow> (selected = Some m \<and> x = ''active'')
            \<or> (classList_contains d1 m x \<and> \<not> (selected = Some m \<and> x = ''hidden''))"
    using t1 i1 by (auto simp: d2_def show_selected_facts split: option.splits)
  have q2: "querySelectorAll tab_button_selector d2 = querySelectorAll tab_button_selector d"
    using t2 c2 c1
    by (intro querySelectorAll_cong_classes) (auto simp: tab_selectors_classes)
  note f3 = fold_remove_active [of "querySelectorAll tab_button_selector d" d2, folded d3_def]
  have t3: "tree d3 = tree d" and i3: "\<And>m. id_attr (elems d3 m) = id_attr (elems d m)"
    and c3: "\<And>m x. classList_contains d3 m x
        \<longleftrightarrow> classList_contains d2 m x \<and> \<not> (m \<in> tabs \<and> x = ''active'')"
    using f3 t2 i2 by (simp_all add: tabs_def)
  have t4: "tree d4 = tree d" and i4: "\<And>m. id_attr (elems d4 m) = id_attr (elems d m)"
    and c4: "\<And>m x. classList_contains d4 m x
        \<longleftrightarrow> (m = tab \<and> x = ''active'') \<or> classList_contains d3 m x"
    using t3 i3 by (simp_all add: d4_def)
  have "switchTab tabId (Some tab) d
          = updateTabIndicator (Some tab)
              (classList_add tab ''active''
                (fold (\<lambda>t. classList_remove t ''active'')
                   (querySelectorAll tab_button_selector d2) d2))"
    unfolding switchTab_def Let_def d2_def d1_def sel1 [unfolded d1_def] by simp
  then have d': "d' = snd (updateTabIndicator (Some tab) d4)"
    by (simp add: d'_def q2 d3_def d4_def)
  show "tree d' = tree d" by (simp add: d' updateTabIndicator_facts t4)
  show "id_attr (elems d' m) = id_attr (elems d m)" by (simp add: d' updateTabIndicator_facts i4)
  show "classList_contains d' m ''hidden''
           \<longleftrightarrow> (m \<in> contents \<or> classList_contains d m ''hidden'') \<and> selected \<noteq> Some m"
    by (auto simp: d' updateTabIndicator_facts c4 c3 c2 c1)
  show "classList_contains d' m ''active''
           \<longleftrightarrow> m = tab \<or> (m \<notin> tabs \<and> (selected = Some m
                              \<or> (m \<notin> contents \<and> classList_contains d m ''active'')))"
    by (auto simp: d' updateTabIndicator_facts c4 c3 c2 c1)
  show "classList_contains d' m x \<longleftrightarrow> classList_contains d m x"
    if "x \<noteq> ''hidden''" and "x \<noteq> ''active''"
    using that by (auto simp: d' updateTabIndicator_facts c4 c3 c2 c1)
qed

text \<open>
  C9: after \<^verbatim>\<open>switchTab(tabId, clickedTab)\<close> with a clicked tab, whether or not the
  update of the indicator threw, the clicked tab has the class \<^verbatim>\<open>active\<close> and among the
  elements matching \<^verbatim>\<open>.irrigation-tab, .tab-button\<close> it is the only one that has it
  (the selector matches the same elements before and after the call); and among the
  elements matching \<^verbatim>\<open>.tab-content\<close> exactly the one that
  \<^verbatim>\<open>getElementById(tabId + '-content')\<close> returns lacks the class \<^verbatim>\<open>hidden\<close>.
\<close>

theorem switchTab_active_and_hidden:
  fixes tabId :: string and clickedTab :: node and d :: document
  defines "d' \<equiv> snd (switchTab tabId (Some clickedTab) d)"
  shows "classList_contains d' clickedTab ''active''
       \<and> (\<forall>n \<in> set (querySelectorAll tab_button_selector d').
             classList_contains d' n ''active'' \<longleftrightarrow> n = clickedTab)
       \<and> (clickedTab \<in> set (querySelectorAll tab_button_selector d) \<longrightarrow>
             {n \<in> set (querySelectorAll tab_button_selector d'). classList_contains d' n ''active''}
               = {clickedTab})
       \<and> (\<forall>n \<in> set (querySelectorAll tab_content_selector d').
             \<not> classList_contains d' n ''hidden''
               \<longleftrightarrow> getElementById (tabId @ ''-content'') d' = Some n)"
proof -
  note e = switchTab_effect [where tabId = tabId and tab = clickedTab and d = d, folded d'_def]
  have qt: "querySelectorAll tab_button_selector d' = querySelectorAll tab_button_selector d"
    using e(1) e(5) by (intro querySelectorAll_cong_classes) (auto simp: tab_selectors_classes)
  have qc: "querySelectorAll tab_content_selector d' = querySelectorAll tab_content_selector d"
    using e(1) e(5) by (intro querySelectorAll_cong_classes) (auto simp: tab_selectors_classes)
  have g: "getElementById (tabId @ ''-content'') d' = getElementById (tabId @ ''-content'') d"
    using e(1) e(2) by (intro getElementById_cong) simp_all
  show ?thesis
    unfolding qt qc g using e(3) e(4) by auto
qed

theorem switchTab_active_and_hidden_witness:
  "querySelectorAll tab_button_selector (snd (switchTab ''pivot'' (Some 3) tabs_page)) = [2, 3]
   \<and> querySelectorAll tab_content_selector (snd (switchTab ''pivot'' (Some 3) tabs_page)) = [5, 6]
   \<and> getElementById ''pivot-content'' (snd (switchTab ''pivot'' (Some 3) tabs_page)) = Some 6
   \<and> classList_contains (snd (switchTab ''pivot'' (Some 3) tabs_page)) 3 ''active''
   \<and> \<not> classList_contains (snd (switchTab ''pivot'' (Some 3) tabs_page)) 2 ''active''
   \<and> classList_contains (snd (switchTab ''pivot'' (Some 3) tabs_page)) 5 ''hidden''
   \<and> \<not> classList_contains (snd (switchTab ''pivot'' (Some 3) tabs_page)) 6 ''hidden''"
proof -
  let ?d = "snd (switchTab ''pivot'' (Some 3) tabs_page)"
  have t: "querySelectorAll tab_button_selector ?d = [2, 3]" by code_simp
  have c: "querySelectorAll tab_content_selector ?d = [5, 6]" by code_simp
  have g: "getElementById (''pivot'' @ ''-content'') ?d = Some 6" by code_simp
  note th = switchTab_active_and_hidden [of "''pivot''" 3 tabs_page, unfolded t c g]
  from th t c g show ?thesis by simp
qed

subsection \<open>The two regular expressions\<close>

text \<open>
  The tests written out above accept the languages of the two regular expressions:
  \<open>a@b.c\<close> with non-empty parts free of white space and \<open>@\<close>, and an optional plus
  sign before one digit from 1 to 9 and at most fifteen further digits.
\<close>

lemma emailRegex_test_iff:
  "emailRegex_test s \<longleftrightarrow>
     (\<exists>a b c. s = a @ [64] @ b @ [46] @ c \<and> a \<noteq> [] \<and> b \<noteq> [] \<and> c \<noteq> []
        \<and> (\<forall>x \<in> set (a @ b @ c). \<not> is_space x \<and> x \<noteq> 64))"
proof
  assume t: "emailRegex_test s"
  define a where "a = takeWhile (\<lambda>c. c \<noteq> 64) s"
  define rest where "rest = dropWhile (\<lambda>c. c \<noteq> 64) s"
  define dom where "dom = tl rest"
  from t have "a \<noteq> [] \<and> (\<forall>x \<in> set a. \<not> is_space x) \<and> rest \<noteq> []
      \<and> ((\<forall>x \<in> set dom. \<not> is_space x \<and> x \<noteq> 64) \<and> 46 \<in> set (butlast (tl dom)))"
    unfolding emailRegex_test_def Let_def a_def rest_def dom_def .
  then have a: "a \<noteq> []" "\<forall>x \<in> set a. \<not> is_space x" and r: "rest \<noteq> []"
    and d: "\<forall>x \<in> set dom. \<not> is_space x \<and> x \<noteq> 64" and dot: "46 \<in> set (butlast (tl dom))"
    by blast+
  from r have "hd rest = 64"
    using hd_dropWhile [of "\<lambda>c. c \<noteq> 64" s] by (simp add: rest_def)
  with r have rest: "rest = 64 # dom" by (cases rest) (simp_all add: dom_def)
  have s: "s = a @ rest" by (simp add: a_def rest_def)
  have a64: "\<forall>x \<in> set a. x \<noteq> 64"
    using set_takeWhileD [of _ "\<lambda>c. c \<noteq> 64" s] by (auto simp: a_def)
  from dot obtain d0 dt where dom: "dom = d0 # dt" and "dt \<noteq> []"
    by (cases dom; cases "tl dom") auto
  then obtain ini l where dt: "dt = ini @ [l]" by (cases dt rule: rev_cases) auto
  from dot dom dt obtain u v where uv: "ini = u @ 46 # v"
    by (auto simp: in_set_conv_decomp)
  let ?b = "d0 # u" and ?c = "v @ [l]"
  have dom': "dom = ?b @ [46] @ ?c" by (simp add: dom dt uv)
  have "s = a @ [64] @ ?b @ [46] @ ?c"
    by (simp add: s rest dom')
  moreover have "\<forall>x \<in> set (a @ ?b @ ?c). \<not> is_space x \<and> x \<noteq> 64"
  proof
    fix x assume "x \<in> set (a @ ?b @ ?c)"
    then have "x \<in> set a \<or> x \<in> set dom" unfolding dom' by auto
    with a a64 d show "\<not> is_space x \<and> x \<noteq> 64" by blast
  qed
  ultimately show "\<exists>a b c. s = a @ [64] @ b @ [46] @ c \<and> a \<noteq> [] \<and> b \<noteq> [] \<and> c \<noteq> []
        \<and> (\<forall>x \<in> set (a @ b @ c). \<not> is_space x \<and> x \<noteq> 64)"
    using a(1) by blast
next
  assume "\<exists>a b c. s = a @ [64] @ b @ [46] @ c \<and> a \<noteq> [] \<and> b \<noteq> [] \<and> c \<noteq> []
        \<and> (\<forall>x \<in> set (a @ b @ c). \<not> is_space x \<and> x \<noteq> 64)"
  then obtain a b c where s: "s = a @ 64 # b @ 46 # c" and ne: "a \<noteq> []" "b \<noteq> []" "c \<noteq> []"
    and ok: "\<forall>x \<in> set (a @ b @ c). \<not> is_space x \<and> x \<noteq> 64"
    by auto
  from ok have a64: "\<And>x. x \<in> set a \<Longrightarrow> x \<noteq> 64" by simp
  have tw: "takeWhile (\<lambda>c. c \<noteq> 64) s = a"
    unfolding s using takeWhile_append2 [of a "\<lambda>c. c \<noteq> 64" "64 # b @ 46 # c"] a64 by simp
  have dw: "dropWhile (\<lambda>c. c \<noteq> 64) s = 64 # b @ 46 # c"
    unfolding s using dropWhile_append2 [of a "\<lambda>c. c \<noteq> 64" "64 # b @ 46 # c"] a64 by simp
  obtain b0 bs where b: "b = b0 # bs" using ne(2) by (cases b) auto
  have bl: "butlast (bs @ 46 # c) = bs @ 46 # butlast c"
    using ne(3) by (simp add: butlast_append)
  have sp: "\<not> is_space 46" by (simp add: is_space_def)
  show "emailRegex_test s"
    using ne ok sp by (simp add: emailRegex_test_def Let_def tw dw b bl)
qed

lemma phoneRegex_test_iff:
  "phoneRegex_test s \<longleftrightarrow>
     (\<exists>sign d ds. s = sign @ d # ds \<and> (sign = [] \<or> sign = [43]) \<and> 49 \<le> d \<and> d \<le> 57
        \<and> (\<forall>x \<in> set ds. 48 \<le> x \<and> x \<le> 57) \<and> length ds \<le> 15)"
proof
  assume t: "phoneRegex_test s"
  show "\<exists>sign d ds. s = sign @ d # ds \<and> (sign = [] \<or> sign = [43]) \<and> 49 \<le> d \<and> d \<le> 57
        \<and> (\<forall>x \<in> set ds. 48 \<le> x \<and> x \<le> 57) \<and> length ds \<le> 15"
  proof (cases s)
    case Nil
    with t show ?thesis by (simp add: phoneRegex_test_def)
  next
    case (Cons c cs)
    show ?thesis
    proof (cases "c = 43")
      case True
      with t Cons obtain d ds where "cs = d # ds" "49 \<le> d" "d \<le> 57"
        "\<forall>x \<in> set ds. 48 \<le> x \<and> x \<le> 57" "length ds \<le> 15"
        by (cases cs) (auto simp: phoneRegex_test_def)
      with Cons True have "s = [43] @ d # ds" by simp
      with \<open>49 \<le> d\<close> \<open>d \<le> 57\<close> \<open>\<forall>x \<in> set ds. 48 \<le> x \<and> x \<le> 57\<close> \<open>length ds \<le> 15\<close>
      show ?thesis by blast
    next
      case False
      with t Cons have "s = [] @ c # cs" "49 \<le> c" "c \<le> 57"
        "\<forall>x \<in> set cs. 48 \<le> x \<and> x \<le> 57" "length cs \<le> 15"
        by (auto simp: phoneRegex_test_def)
      then show ?thesis by blast
    qed
  qed
next
  assume "\<exists>sign d ds. s = sign @ d # ds \<and> (sign = [] \<or> sign = [43]) \<and> 49 \<le> d \<and> d \<le> 57
        \<and> (\<forall>x \<in> set ds. 48 \<le> x \<and> x \<le> 57) \<and> length ds \<le> 15"
  then obtain sign d ds where s: "s = sign @ d # ds" and sg: "sign = [] \<or> sign = [43]"
    and d: "49 \<le> d" "d \<le> 57" and ds: "\<forall>x \<in> set ds. 48 \<le> x \<and> x \<le> 57" "length ds \<le> 15"
    by blast
  from sg show "phoneRegex_test s"
  proof
    assume "sign = []"
    with s d ds show ?thesis by (auto simp: phoneRegex_test_def)
  next
    assume "sign = [43]"
    with s d ds show ?thesis by (auto simp: phoneRegex_test_def)
  qed
qed

subsection \<open>Removing an element from a well-formed tree\<close>

text \<open>
  In a document every element occurs once in the tree. The lemmas of this part are about
  trees with that property: \<open>distinct (preorder t)\<close>.
\<close>

lemma root_in_preorder: "root t \<in> set (preorder t)"
  by (cases t) simp

lemma preorder_root: "preorder t = root t # tl (preorder t)"
  by (cases t) simp

lemma subtrees_kid: "k \<in> set (kids t) \<Longrightarrow> s \<in> set (subtrees k) \<Longrightarrow> s \<in> set (subtrees t)"
  by (cases t) auto

lemma root_remove_node [simp]: "root (remove_node x t) = root t"
  by (cases t) simp

lemma kid_roots_in_tl: "c \<in> set (map root (kids s)) \<Longrightarrow> c \<in> set (tl (preorder s))"
proof (cases s)
  case (Node n ts)
  assume "c \<in> set (map root (kids s))"
  with Node obtain k where "k \<in> set ts" and "c = root k" by auto
  with root_in_preorder [of k] Node show ?thesis by auto
qed

lemma subtree_preorder_subset:
  "s \<in> set (subtrees t) \<Longrightarrow> s = t \<or> set (preorder s) \<subseteq> set (tl (preorder t))"
proof (induction t)
  case (Node n ts)
  show ?case
  proof (cases "s = Node n ts")
    case True
    then show ?thesis by simp
  next
    case False
    with Node.prems obtain k where k: "k \<in> set ts" and sk: "s \<in> set (subtrees k)" by auto
    from Node.IH [OF k sk] have "set (preorder s) \<subseteq> set (preorder k)"
      by (cases "preorder k") auto
    with k show ?thesis by auto
  qed
qed

lemma subtree_preorder_subset': "s \<in> set (subtrees t) \<Longrightarrow> set (preorder s) \<subseteq> set (preorder t)"
  using subtree_preorder_subset [of s t] by (cases "preorder t") auto

lemma distinct_kids_same:
  "distinct (concat (map preorder ts)) \<Longrightarrow> k1 \<in> set ts \<Longrightarrow> k2 \<in> set ts \<Longrightarrow>
     a \<in> set (preorder k1) \<Longrightarrow> a \<in> set (preorder k2) \<Longrightarrow> k1 = k2"
proof (induction ts)
  case Nil
  then show ?case by simp
next
  case (Cons k ks)
  from Cons.prems(1) have d: "distinct (concat (map preorder ks))"
    and disj: "set (preorder k) \<inter> (\<Union>t \<in> set ks. set (preorder t)) = {}"
    by auto
  show ?case
  proof (cases "k1 = k")
    case k1: True
    show ?thesis
    proof (cases "k2 = k")
      case True
      with k1 show ?thesis by simp
    next
      case False
      with Cons.prems(3) have "k2 \<in> set ks" by simp
      with Cons.prems(4,5) k1 disj show ?thesis by blast
    qed
  next
    case k1: False
    with Cons.prems(2) have in1: "k1 \<in> set ks" by simp
    show ?thesis
    proof (cases "k2 = k")
      case True
      with Cons.prems(4,5) in1 disj show ?thesis by blast
    next
      case False
      with Cons.prems(3) have "k2 \<in> set ks" by simp
      from Cons.IH [OF d in1 this Cons.prems(4,5)] show ?thesis .
    qed
  qed
qed

lemma distinct_kid: "distinct (preorder (Node n ts)) \<Longrightarrow> k \<in> set ts \<Longrightarrow> distinct (preorder k)"
  by (induction ts) auto

lemma unique_subtree:
  "distinct (preorder t) \<Longrightarrow> s1 \<in> set (subtrees t) \<Longrightarrow> s2 \<in> set (subtrees t) \<Longrightarrow>
     root s1 = root s2 \<Longrightarrow> s1 = s2"
proof (induction t)
  case (Node n ts)
  have top: "s = Node n ts" if "s \<in> set (subtrees (Node n ts))" and "root s = n" for s
  proof (rule ccontr)
    assume "s \<noteq> Node n ts"
    with subtree_preorder_subset [OF that(1)]
    have "set (preorder s) \<subseteq> set (tl (preorder (Node n ts)))" by simp
    with root_in_preorder [of s] that(2) have "n \<in> set (concat (map preorder ts))" by auto
    with Node.prems(1) show False by simp
  qed
  show ?case
  proof (cases "s1 = Node n ts \<or> s2 = Node n ts")
    case True
    then show ?thesis
    proof
      assume a: "s1 = Node n ts"
      with Node.prems(4) have "root s2 = n" by simp
      from top [OF Node.prems(3) this] a show ?thesis by simp
    next
      assume a: "s2 = Node n ts"
      with Node.prems(4) have "root s1 = n" by simp
      from top [OF Node.prems(2) this] a show ?thesis by simp
    qed
  next
    case False
    with Node.prems obtain k1 k2 where k1: "k1 \<in> set ts" "s1 \<in> set (subtrees k1)"
      and k2: "k2 \<in> set ts" "s2 \<in> set (subtrees k2)" by auto
    from subtree_preorder_subset' [OF k1(2)] root_in_preorder [of s1]
    have a1: "root s1 \<in> set (preorder k1)" by blast
    from subtree_preorder_subset' [OF k2(2)] root_in_preorder [of s2] Node.prems(4)
    have a2: "root s1 \<in> set (preorder k2)" by auto
    from Node.prems(1) have "distinct (concat (map preorder ts))" by simp
    from distinct_kids_same [OF this k1(1) k2(1) a1 a2] have "k1 = k2" .
    with Node.IH [OF k1(1) distinct_kid [OF Node.prems(1) k1(1)] k1(2)] k2(2) Node.prems(4)
    show ?thesis by simp
  qed
qed

lemma unique_parent:
  "distinct (preorder t) \<Longrightarrow> s1 \<in> set (subtrees t) \<Longrightarrow> s2 \<in> set (subtrees t) \<Longrightarrow>
     c \<in> set (map root (kids s1)) \<Longrightarrow> c \<in> set (map root (kids s2)) \<Longrightarrow> s1 = s2"
proof (induction t)
  case (Node n ts)
  have top: "s = Node n ts"
    if "s \<in> set (subtrees (Node n ts))" and "c \<in> set (map root (kids s))"
      and "c \<in> set (map root ts)" for s
  proof (rule ccontr)
    assume ne: "s \<noteq> Node n ts"
    with that(1) obtain k where k: "k \<in> set ts" "s \<in> set (subtrees k)" by auto
    from that(3) obtain k' where k': "k' \<in> set ts" "c = root k'" by auto
    from kid_roots_in_tl [OF that(2)] have cs: "c \<in> set (tl (preorder s))" .
    then have "c \<in> set (preorder s)" by (cases "preorder s") auto
    with subtree_preorder_subset' [OF k(2)] have ck: "c \<in> set (preorder k)" by blast
    from k'(2) root_in_preorder [of k'] have ck': "c \<in> set (preorder k')" by simp
    from Node.prems(1) have "distinct (concat (map preorder ts))" by simp
    from distinct_kids_same [OF this k(1) k'(1) ck ck'] have kk: "k = k'" .
    from distinct_kid [OF Node.prems(1) k(1)] have dk: "distinct (preorder k)" .
    have "c \<in> set (tl (preorder k))"
    proof (cases "s = k")
      case True
      with cs show ?thesis by simp
    next
      case False
      with subtree_preorder_subset [OF k(2)] \<open>c \<in> set (preorder s)\<close> show ?thesis by blast
    qed
    moreover have "preorder k = c # tl (preorder k)"
      using kk k'(2) preorder_root [of k] by simp
    ultimately show False using dk by (metis distinct.simps(2))
  qed
  show ?case
  proof (cases "s1 = Node n ts \<or> s2 = Node n ts")
    case True
    then show ?thesis
    proof
      assume a: "s1 = Node n ts"
      with Node.prems(4) have "c \<in> set (map root ts)" by simp
      from top [OF Node.prems(3) Node.prems(5) this] a show ?thesis by simp
    next
      assume a: "s2 = Node n ts"
      with Node.prems(5) have "c \<in> set (map root ts)" by simp
      from top [OF Node.prems(2) Node.prems(4) this] a show ?thesis by simp
    qed
  next
    case False
    with Node.prems obtain k1 k2 where k1: "k1 \<in> set ts" "s1 \<in> set (subtrees k1)"
      and k2: "k2 \<in> set ts" "s2 \<in> set (subtrees k2)" by auto
    from kid_roots_in_tl [OF Node.prems(4)] have "c \<in> set (preorder s1)"
      by (cases "preorder s1") auto
    with subtree_preorder_subset' [OF k1(2)] have a1: "c \<in> set (preorder k1)" by blast
    from kid_roots_in_tl [OF Node.prems(5)] have "c \<in> set (preorder s2)"
      by (cases "preorder s2") auto
    with subtree_preorder_subset' [OF k2(2)] have a2: "c \<in> set (preorder k2)" by blast
    from Node.prems(1) have "distinct (concat (map preorder ts))" by simp
    from distinct_kids_same [OF this k1(1) k2(1) a1 a2] have "k1 = k2" .
    with Node.IH [OF k1(1) distinct_kid [OF Node.prems(1) k1(1)] k1(2)] k2(2) Node.prems(4,5)
    show ?thesis by simp
  qed
qed

lemma subtrees_remove_node:
  "s' \<in> set (subtrees (remove_node x t)) \<Longrightarrow> \<exists>s \<in> set (subtrees t). s' = remove_node x s"
proof (induction t)
  case (Node n ts)
  show ?case
  proof (cases "s' = remove_node x (Node n ts)")
    case True
    then show ?thesis by auto
  next
    case False
    with Node.prems obtain k where k: "k \<in> set ts" and "s' \<in> set (subtrees (remove_node x k))"
      by auto
    with Node.IH obtain s where "s \<in> set (subtrees k)" and "s' = remove_node x s" by blast
    with k show ?thesis by auto
  qed
qed

lemma kids_remove_node_subset:
  "set (map root (kids (remove_node x s))) \<subseteq> set (map root (kids s))"
  by (cases s) auto

lemma edge_survives_removal:
  "distinct (preorder t) \<Longrightarrow> s \<in> set (subtrees t) \<Longrightarrow> x \<in> set (tl (preorder s)) \<Longrightarrow>
     c \<in> set (map root (kids s)) \<Longrightarrow> c \<noteq> x \<Longrightarrow>
     remove_node x s \<in> set (subtrees (remove_node x t))
     \<and> c \<in> set (map root (kids (remove_node x s)))"
proof (induction t)
  case (Node n ts)
  have kid: "c \<in> set (map root (kids (remove_node x s)))"
  proof -
    obtain m ks where s: "s = Node m ks" by (cases s)
    with Node.prems(4) obtain k where "k \<in> set ks" and "root k = c" by auto
    with Node.prems(5) s show ?thesis by force
  qed
  show ?case
  proof (cases "s = Node n ts")
    case True
    with kid show ?thesis by simp
  next
    case False
    with Node.prems(2) obtain k where k: "k \<in> set ts" and sk: "s \<in> set (subtrees k)" by auto
    from distinct_kid [OF Node.prems(1) k] have dk: "distinct (preorder k)" .
    have xs: "x \<in> set (preorder s)" using Node.prems(3) by (cases "preorder s") auto
    have "root k \<noteq> x"
    proof
      assume rx: "root k = x"
      have "x \<in> set (tl (preorder k))"
      proof (cases "s = k")
        case True
        with Node.prems(3) show ?thesis by simp
      next
        case False
        with subtree_preorder_subset [OF sk] xs show ?thesis by blast
      qed
      moreover have "preorder k = x # tl (preorder k)" using rx preorder_root [of k] by simp
      ultimately show False using dk by (metis distinct.simps(2))
    qed
    with k have "remove_node x k \<in> set (kids (remove_node x (Node n ts)))" by simp
    moreover from Node.IH [OF k dk sk Node.prems(3,4,5)]
    have "remove_node x s \<in> set (subtrees (remove_node x k))" by simp
    ultimately have "remove_node x s \<in> set (subtrees (remove_node x (Node n ts)))"
      by (rule subtrees_kid)
    with kid show ?thesis by simp
  qed
qed

lemma find_Some_ex:
  "\<exists>x \<in> set xs. P x \<Longrightarrow> \<exists>y. find P xs = Some y \<and> P y \<and> y \<in> set xs"
  by (induction xs) auto

lemma parentElement_SomeD:
  assumes "parentElement d c = Some p"
  shows "\<exists>s \<in> set (subtrees (tree d)). root s = p \<and> c \<in> set (map root (kids s))"
proof -
  from assms obtain s where f: "find (\<lambda>s. c \<in> set (map root (kids s))) (subtrees (tree d)) = Some s"
    and "root s = p"
    by (auto simp: parentElement_def)
  moreover from f have "s \<in> set (subtrees (tree d))" and "c \<in> set (map root (kids s))"
    by (auto simp: find_Some_iff)
  ultimately show ?thesis by blast
qed

lemma descendants_SomeD:
  assumes "x \<in> set (descendants d p)"
  shows "\<exists>s \<in> set (subtrees (tree d)). root s = p \<and> x \<in> set (tl (preorder s))"
proof (cases "find (\<lambda>s. root s = p) (subtrees (tree d))")
  case None
  with assms show ?thesis by (simp add: descendants_def subtree_at_def)
next
  case (Some s)
  then have "s \<in> set (subtrees (tree d))" and "root s = p"
    by (auto simp: find_Some_iff)
  moreover from Some assms have "x \<in> set (tl (preorder s))"
    by (simp add: descendants_def subtree_at_def)
  ultimately show ?thesis by blast
qed

lemma parentElement_after_removal:
  assumes wf: "distinct (preorder (tree d))"
    and par: "parentElement d c = Some p"
    and x: "x \<in> set (descendants d p)"
    and ne: "x \<noteq> c"
  shows "parentElement (element_remove x d) c = Some p"
proof -
  let ?t = "tree d" and ?P = "\<lambda>s. c \<in> set (map root (kids s))"
  from parentElement_SomeD [OF par] obtain s where s: "s \<in> set (subtrees ?t)" "root s = p" "?P s"
    by blast
  from descendants_SomeD [OF x] obtain sp where sp: "sp \<in> set (subtrees ?t)" "root sp = p"
    "x \<in> set (tl (preorder sp))" by blast
  from unique_subtree [OF wf sp(1) s(1)] sp(2) s(2) have "sp = s" by simp
  with sp(3) have xs: "x \<in> set (tl (preorder s))" by simp
  from edge_survives_removal [OF wf s(1) xs s(3) ne [symmetric]]
  have "\<exists>s' \<in> set (subtrees (remove_node x ?t)). ?P s'" by blast
  from find_Some_ex [OF this] obtain s' where f: "find ?P (subtrees (remove_node x ?t)) = Some s'"
    and Ps': "?P s'" and s': "s' \<in> set (subtrees (remove_node x ?t))" by blast
  from subtrees_remove_node [OF s'] obtain s0 where s0: "s0 \<in> set (subtrees ?t)"
    "s' = remove_node x s0" by blast
  with Ps' kids_remove_node_subset [of x s0] have "?P s0" by blast
  from unique_parent [OF wf s0(1) s(1) this s(3)] have "s0 = s" .
  with s0(2) s(2) have "root s' = p" by simp
  with f show ?thesis by (simp add: parentElement_def element_remove_def)
qed

lemma removed_node_gone: "x \<noteq> root t \<Longrightarrow> x \<notin> set (preorder (remove_node x t))"
proof (induction t)
  case (Node n ts)
  then show ?case by auto
qed

lemma preorder_append_child_subset:
  "set (preorder (append_child p c t)) \<subseteq> insert c (set (preorder t))"
proof (induction t)
  case (Node n ts)
  then show ?case by (auto split: if_splits)
qed

subsection \<open>Form validation\<close>

lemma map_root_subtrees: "map root (subtrees t) = preorder t"
proof (induction t)
  case (Node n ts)
  then have "concat (map (\<lambda>k. map root (subtrees k)) ts) = concat (map preorder ts)"
    by (induction ts) simp_all
  then show ?case by (simp add: map_concat comp_def)
qed

lemma parentElement_in_tree:
  assumes "parentElement d n = Some p"
  shows "p \<in> set (preorder (tree d))"
proof -
  from assms obtain s where "find (\<lambda>s. n \<in> set (map root (kids s))) (subtrees (tree d)) = Some s"
    and "root s = p"
    by (auto simp: parentElement_def)
  then have "s \<in> set (subtrees (tree d))" by (auto simp: find_Some_iff)
  then have "root s \<in> set (map root (subtrees (tree d)))" by simp
  with \<open>root s = p\<close> show ?thesis by (simp add: map_root_subtrees)
qed

lemma append_child_in_tree:
  "p \<in> set (preorder t) \<Longrightarrow> c \<in> set (preorder (append_child p c t))"
proof (induction t)
  case (Node n ts)
  show ?case
  proof (cases "n = p")
    case True
    then show ?thesis by simp
  next
    case False
    with Node.prems obtain k where k: "k \<in> set ts" and "p \<in> set (preorder k)" by auto
    with Node.IH have "c \<in> set (preorder (append_child p c k))" by blast
    with k show ?thesis by auto
  qed
qed

lemma parentElement_tree_cong: "tree d' = tree d \<Longrightarrow> parentElement d' n = parentElement d n"
  by (simp add: parentElement_def)

lemma class_tokens_field_error:
  "class_tokens ''field-error text-error text-sm mt-1''
     = [''field-error'', ''text-error'', ''text-sm'', ''mt-1'']"
  by code_simp

text \<open>
  What \<^verbatim>\<open>showFieldError\<close> does when it is called on a field: in a well-formed
  document, on a field that has a parent element, it removes the \<^verbatim>\<open>.field-error\<close>
  element found under that parent, if there is one (and it is not the field itself), and
  appends to the parent a new \<^verbatim>\<open>div\<close> with the classes
  \<^verbatim>\<open>field-error text-error text-sm mt-1\<close> whose text is the message; it returns normally.
\<close>

lemma showFieldError_appends_message:
  assumes wf: "distinct (preorder (tree d))" "next_node d \<notin> set (preorder (tree d))"
    and par: "parentElement d field = Some parent"
    and other: "element_querySelector parent field_error_selector d \<noteq> Some field"
  shows "\<exists>d'. showFieldError message field d = (Inr (), d')
            \<and> tree d' = append_child parent (next_node d)
                 (case element_querySelector parent field_error_selector d of
                    None \<Rightarrow> tree d | Some x \<Rightarrow> remove_node x (tree d))
            \<and> next_node d \<in> set (preorder (tree d'))
            \<and> (\<forall>x. element_querySelector parent field_error_selector d = Some x \<longrightarrow>
                   x \<notin> set (preorder (tree d')))
            \<and> tagName (elems d' (next_node d)) = ''div''
            \<and> classList (elems d' (next_node d))
                = [''field-error'', ''text-error'', ''text-sm'', ''mt-1'']
            \<and> textContent (elems d' (next_node d)) = message"
proof -
  let ?existing = "element_querySelector parent field_error_selector d"
  define d1 where "d1 = (case ?existing of None \<Rightarrow> d | Some x \<Rightarrow> element_remove x d)"
  have n1: "next_node d1 = next_node d" and e1: "elems d1 = elems d"
    by (simp_all add: d1_def element_remove_def split: option.splits)
  have t1: "tree d1 = (case ?existing of None \<Rightarrow> tree d | Some x \<Rightarrow> remove_node x (tree d))"
    by (simp add: d1_def element_remove_def split: option.splits)
  have p1: "parentElement d1 field = Some parent"
  proof (cases ?existing)
    case None
    with par show ?thesis by (simp add: d1_def)
  next
    case (Some x)
    then have "x \<in> set (descendants d parent)"
      by (auto simp: element_querySelector_def find_Some_iff)
    moreover from Some other have "x \<noteq> field" by simp
    ultimately show ?thesis
      using parentElement_after_removal [OF wf(1) par] Some by (simp add: d1_def)
  qed
  define d4 where "d4 = set_textContent (next_node d) message
      (set_className (next_node d) ''field-error text-error text-sm mt-1''
         (snd (createElement ''div'' d1)))"
  have t4: "tree d4 = tree d1"
    by (simp add: d4_def set_textContent_def set_className_def createElement_def)
  have p4: "parentElement d4 field = Some parent"
    using p1 parentElement_tree_cong [OF t4] by simp
  have run: "showFieldError message field d = (Inr (), appendChild parent (next_node d) d4)"
    using par p4
    by (simp add: showFieldError_def Let_def createElement_def d4_def d1_def [symmetric] n1)
  have e4: "elems (appendChild parent (next_node d) d4) (next_node d)
              = (blank_element ''div'')
                  \<lparr>classList := class_tokens ''field-error text-error text-sm mt-1'',
                   textContent := message\<rparr>"
    by (simp add: appendChild_def d4_def set_textContent_def set_className_def
          update_element_def createElement_def n1)
  have tr: "tree (appendChild parent (next_node d) d4)
              = append_child parent (next_node d) (tree d1)"
    by (simp add: appendChild_def t4)
  have inside: "next_node d \<in> set (preorder (tree (appendChild parent (next_node d) d4)))"
    unfolding tr by (rule append_child_in_tree [OF parentElement_in_tree [OF p1]])
  have gone: "x \<notin> set (preorder (tree (appendChild parent (next_node d) d4)))"
    if ex: "?existing = Some x" for x
  proof -
    from ex have xd: "x \<in> set (descendants d parent)"
      by (auto simp: element_querySelector_def find_Some_iff)
    from descendants_SomeD [OF xd] obtain sp where sp: "sp \<in> set (subtrees (tree d))"
      and xs: "x \<in> set (tl (preorder sp))" by blast
    from xs have xin: "x \<in> set (preorder sp)" by (cases "preorder sp") auto
    with subtree_preorder_subset' [OF sp] have xt: "x \<in> set (preorder (tree d))" by blast
    have "x \<in> set (tl (preorder (tree d)))"
    proof (cases "sp = tree d")
      case True
      with xs show ?thesis by simp
    next
      case False
      with subtree_preorder_subset [OF sp] xin show ?thesis by blast
    qed
    with wf(1) preorder_root [of "tree d"] have "x \<noteq> root (tree d)"
      by (metis distinct.simps(2))
    from removed_node_gone [OF this] ex have "x \<notin> set (preorder (tree d1))"
      by (simp add: t1)
    moreover from xt wf(2) have "x \<noteq> next_node d" by blast
    ultimately show ?thesis
      unfolding tr using preorder_append_child_subset [of parent "next_node d" "tree d1"] by blast
  qed
  from run e4 tr inside gone t1 show ?thesis
    by (simp add: class_tokens_field_error blank_element_def)
qed

lemma showFieldError_replaces_message_example:
  "distinct (preorder (tree error_page)) \<and> next_node error_page \<notin> set (preorder (tree error_page))
   \<and> parentElement error_page 3 = Some 2
   \<and> element_querySelector 2 field_error_selector error_page = Some 5
   \<and> (\<exists>d'. showFieldError ''Please enter a valid email address'' 3 error_page = (Inr (), d')
          \<and> 6 \<in> set (preorder (tree d'))
          \<and> 5 \<notin> set (preorder (tree d'))
          \<and> textContent (elems d' 6) = ''Please enter a valid email address'')"
proof -
  have w: "distinct (preorder (tree error_page))"
    "next_node error_page \<notin> set (preorder (tree error_page))" by code_simp+
  have a: "parentElement error_page 3 = Some 2" by code_simp
  have b: "element_querySelector 2 field_error_selector error_page = Some 5" by code_simp
  then have b': "element_querySelector 2 field_error_selector error_page \<noteq> Some 3" by simp
  have n: "next_node error_page = 6" by code_simp
  from showFieldError_appends_message
         [OF w a b', of "''Please enter a valid email address''", unfolded n] w a b
  show ?thesis by auto
qed




text \<open>
  The receiver of the listeners: on an element without the functions of
  \<^verbatim>\<open>FormEnhancement\<close> among its properties, the blur listener and the submit listener
  throw \<^verbatim>\<open>TypeError\<close> and leave the document as it was; the function behind the
  debounced input listener, called without a \<^verbatim>\<open>this\<close>, throws on every document.
\<close>

lemma form_listeners_throw_without_methods:
  "methods (elems d n) = [] \<Longrightarrow> listener_body ValidateOnBlur (Some n) target d = (Inl TypeError, d)"
  "methods (elems d n) = [] \<Longrightarrow> listener_body ValidateOnSubmit (Some n) target d = (Inl TypeError, d)"
  "timer_body (CallWithoutThis RevalidateOnInput target) d = (Inl TypeError, d)"
  by (simp_all add: call_method_def)

text \<open>
  C2, at a page with a form that holds one required email field and a submit button:
  \<^verbatim>\<open>setupFormValidation\<close> registers a blur listener and a debounced input listener on
  the field and a submit listener on the form. The blur listener and the submit listener
  throw \<^verbatim>\<open>TypeError\<close> when their event is dispatched; the input listener sets its timer,
  and the callback throws \<^verbatim>\<open>TypeError\<close> when the timer fires.
\<close>

theorem form_listeners_throw:
  "setupFormValidation form_page
     = [(Element 3, ''blur'', ValidateOnBlur),
        (Element 3, ''input'', Debounced 300 RevalidateOnInput),
        (Element 1, ''submit'', ValidateOnSubmit)]
   \<and> fst (dispatch (setupFormValidation form_page) 3 ''blur'' form_page) = [Inl TypeError]
   \<and> fst (dispatch (setupFormValidation form_page) 1 ''submit'' form_page) = [Inl TypeError]
   \<and> fst (dispatch (setupFormValidation form_page) 3 ''input'' form_page) = [Inr ()]
   \<and> timers (snd (dispatch (setupFormValidation form_page) 3 ''input'' form_page))
       = [(300, CallWithoutThis RevalidateOnInput 3)]
   \<and> fst (timer_body (CallWithoutThis RevalidateOnInput 3)
             (snd (dispatch (setupFormValidation form_page) 3 ''input'' form_page)))
       = Inl TypeError"
  by code_simp


subsection \<open>What the listeners leave in the document\<close>













subsection \<open>The class list after validateField\<close>








end
